theory Spec2Isabelle
  imports Complex_Main "HOL-Library.Word"
begin

unbundle bit_operations_syntax

section \<open>Machine integers and failures\<close>

text \<open>
  The C++ type \<open>int\<close> of cell addresses is modelled as a 32-bit word, read as two's
  complement by \<open>sint\<close>. Refinement levels and loop counters, which the program only
  ever takes from \<open>0\<close> upwards, are natural numbers. Values of type \<open>double\<close> and
  \<open>std::complex<double>\<close> are carried as the real and complex numbers they denote, and
  the sums and products that make up a result are exact; where the program branches on
  a comparison of two computed doubles, the two sides are computed with the rounding
  of section \<open>Double precision\<close>.
\<close>

type_synonym cint = "32 word"

datatype failure = OutOfBounds | AssertionFailed | LengthError | NotFinite

section \<open>Double precision\<close>

text \<open>
  The binary64 format: 53 significant bits, least exponent \<open>-1022\<close>, rounding to nearest
  with ties to the even significand. \<open>round_double\<close> rounds on the grid of the binade of
  its argument (spacing \<open>2^(e - 52)\<close> for \<open>2^e \<le> |r| < 2^(e + 1)\<close>, and \<open>2^(-1074)\<close> below
  \<open>2^(-1022)\<close>); a rounded value of magnitude \<open>2^1024\<close> or more stands for an infinity.
\<close>

definition round_even :: "real \<Rightarrow> int" where
  "round_even r =
     (let f = \<lfloor>r\<rfloor> in
      if r - of_int f < 1 / 2 then f
      else if 1 / 2 < r - of_int f then f + 1
      else if even f then f else f + 1)"

definition exponent_double :: "real \<Rightarrow> int" where
  "exponent_double r = max \<lfloor>log 2 \<bar>r\<bar>\<rfloor> (- 1022)"

definition round_double :: "real \<Rightarrow> real" where
  "round_double r =
     (if r = 0 then 0
      else let ulp = 2 powi (exponent_double r - 52)
           in of_int (round_even (r / ulp)) * ulp)"

text \<open>A computed magnitude: a double that is not negative, or \<open>+infinity\<close>.\<close>

datatype magnitude = Finite real | Infinity

definition magnitude_of :: "real \<Rightarrow> magnitude" where
  "magnitude_of r = (if 2 ^ 1024 \<le> r then Infinity else Finite r)"

text \<open>
  \<open>operator-\<close> on \<open>std::complex<double>\<close>: each component is a rounded difference (a
  component that overflows keeps a magnitude of at least \<open>2^1024\<close>, which \<open>abs_complex\<close>
  turns into \<open>Infinity\<close>).
\<close>

definition minus_complex :: "complex \<Rightarrow> complex \<Rightarrow> complex" where
  "minus_complex a b = Complex (round_double (Re a - Re b)) (round_double (Im a - Im b))"

text \<open>
  \<open>std::abs\<close> on \<open>std::complex<double>\<close>: the Euclidean norm as a correctly rounded
  \<open>hypot\<close> returns it, the nearest double, or \<open>Infinity\<close> beyond the largest one.
\<close>

definition abs_complex :: "complex \<Rightarrow> magnitude" where
  "abs_complex z = magnitude_of (round_double (cmod z))"

text \<open>The comparisons \<open><\<close> and \<open><=\<close> of two magnitudes.\<close>

fun less_magnitude :: "magnitude \<Rightarrow> magnitude \<Rightarrow> bool" where
  "less_magnitude (Finite a) (Finite b) = (a < b)"
| "less_magnitude (Finite a) Infinity = True"
| "less_magnitude Infinity b = False"

fun le_magnitude :: "magnitude \<Rightarrow> magnitude \<Rightarrow> bool" where
  "le_magnitude (Finite a) (Finite b) = (a \<le> b)"
| "le_magnitude a Infinity = True"
| "le_magnitude Infinity (Finite b) = False"

text \<open>\<open>std::max(a, b)\<close>: \<open>(a < b) ? b : a\<close>.\<close>

definition max_magnitude :: "magnitude \<Rightarrow> magnitude \<Rightarrow> magnitude" where
  "max_magnitude a b = (if less_magnitude a b then b else a)"

text \<open>The product of a positive double \<open>e\<close> and a magnitude, rounded.\<close>

fun times_magnitude :: "real \<Rightarrow> magnitude \<Rightarrow> magnitude" where
  "times_magnitude e (Finite a) = magnitude_of (round_double (e * a))"
| "times_magnitude e Infinity = Infinity"

section \<open>Util.cc\<close>

text \<open>\<open>Util::setbit\<close>: \<open>n | (1<<pos)\<close> when \<open>setto == 1\<close>, otherwise \<open>n & ~(1<<pos)\<close>.\<close>

definition setbit :: "cint \<Rightarrow> nat \<Rightarrow> cint \<Rightarrow> cint" where
  "setbit n pos setto =
     (if setto = 1 then n OR push_bit pos 1 else n AND NOT (push_bit pos 1))"

text \<open>\<open>Util::getbit\<close>: \<open>1\<close> when \<open>(n & (1 << pos)) != 0\<close>, otherwise \<open>0\<close>.\<close>

definition getbit :: "cint \<Rightarrow> nat \<Rightarrow> cint" where
  "getbit n pos = (if n AND push_bit pos 1 \<noteq> 0 then 1 else 0)"

text \<open>The body of the loop of \<open>Util::interleave\<close> at counter \<open>i\<close>.\<close>

definition interleave_body :: "nat \<Rightarrow> cint \<Rightarrow> cint \<Rightarrow> nat \<Rightarrow> cint \<Rightarrow> cint" where
  "interleave_body level x y i ans =
     setbit (setbit ans ((level - i) * 2 - 1) (getbit x (level - i - 1)))
            ((level - i) * 2 - 2) (getbit y (level - i - 1))"

definition interleave :: "cint \<Rightarrow> cint \<Rightarrow> nat \<Rightarrow> cint" where
  "interleave x y level =
     (if x = 0 \<and> y = 0 then 0
      else fold (interleave_body level x y) [0..<level] 0)"

text \<open>The body of the loop of \<open>Util::uninterleave\<close>, on the pair \<open>(xInt, yInt)\<close>.\<close>

definition uninterleave_body :: "nat \<Rightarrow> cint \<Rightarrow> nat \<Rightarrow> cint \<times> cint \<Rightarrow> cint \<times> cint" where
  "uninterleave_body L n i xy =
     (setbit (fst xy) (L - i - 1) (getbit n ((L - i - 1) * 2 + 1)),
      setbit (snd xy) (L - i - 1) (getbit n ((L - i - 1) * 2)))"

definition uninterleave_ints :: "cint \<Rightarrow> nat \<Rightarrow> cint \<times> cint" where
  "uninterleave_ints n L = fold (uninterleave_body L n) [0..<L] (0, 0)"

text \<open>\<open>Util::uninterleave\<close> returns the two integers as a complex number.\<close>

definition uninterleave :: "cint \<Rightarrow> nat \<Rightarrow> complex" where
  "uninterleave n L =
     (if n = 0 then Complex 0 0
      else Complex (real_of_int (sint (fst (uninterleave_ints n L))))
                   (real_of_int (sint (snd (uninterleave_ints n L)))))"

text \<open>The conversion \<open>(int) d\<close> of a double: truncation towards zero.\<close>

definition int_of_double :: "real \<Rightarrow> cint" where
  "int_of_double d = word_of_int (if 0 \<le> d then \<lfloor>d\<rfloor> else \<lceil>d\<rceil>)"


section \<open>Point.cc\<close>

record Point =
  coord :: complex

text \<open>\<open>std::numeric_limits<double>::epsilon()\<close>.\<close>

definition epsilon :: real where
  "epsilon = 1 / 2 ^ 52"

text \<open>
  \<open>Point::equals\<close>: \<open>diff = std::abs(this->coord - p.getCoord())\<close>, then
  \<open>diff < epsilon\<close>.
\<close>

definition equals :: "Point \<Rightarrow> Point \<Rightarrow> bool" where
  "equals this q =
     (let diff = abs_complex (minus_complex (coord this) (coord q))
      in if less_magnitude diff (Finite epsilon) then True else False)"

text \<open>\<open>std::floor\<close> on a double.\<close>

definition floor_double :: "real \<Rightarrow> real" where
  "floor_double d = real_of_int \<lfloor>d\<rfloor>"

definition getBoxIndex :: "Point \<Rightarrow> nat \<Rightarrow> cint" where
  "getBoxIndex this level =
     interleave (int_of_double (floor_double (Re (coord this) * 2 ^ level)))
                (int_of_double (floor_double (Im (coord this) * 2 ^ level)))
                level"

section \<open>Box.cc\<close>

record Box =
  box_level :: nat
  box_index :: cint
  box_p :: int
  box_empty :: bool
  box_c :: "complex list"
  box_dtilde :: "complex list"
  box_d :: "complex list"
  box_x :: "Point list"
  box_y :: "Point list"

text \<open>
  The loop shared by both constructors: \<open>c[i] = 0.0; dtilde[i] = 0.0; d[i] = 0.0\<close>
  for \<open>i < p\<close>. The three vectors were allocated with \<open>p + 1\<close> entries, so every
  index is in range.
\<close>

definition zero_coefficients :: "nat \<Rightarrow> Box \<Rightarrow> Box" where
  "zero_coefficients i b =
     b\<lparr>box_c := (box_c b)[i := 0],
       box_dtilde := (box_dtilde b)[i := 0],
       box_d := (box_d b)[i := 0]\<rparr>"

text \<open>
  \<open>Box::Box(int level, int index, int p)\<close>: the vectors are constructed as \<open>c(p+1)\<close>,
  \<open>dtilde(p+1)\<close>, \<open>d(p+1)\<close>. A negative size makes the vector constructor throw.
\<close>

definition Box_init :: "nat \<Rightarrow> cint \<Rightarrow> int \<Rightarrow> failure + Box" where
  "Box_init level index p =
     (if p + 1 < 0 then Inl LengthError
      else Inr (fold zero_coefficients [0..<nat p]
             \<lparr>box_level = level, box_index = index, box_p = p, box_empty = True,
              box_c = replicate (nat (p + 1)) 0,
              box_dtilde = replicate (nat (p + 1)) 0,
              box_d = replicate (nat (p + 1)) 0,
              box_x = [], box_y = []\<rparr>))"

text \<open>\<open>Box::Box()\<close>: \<open>DEFAULT_LEVEL = 3\<close>, \<open>DEFAULT_INDEX = 0\<close>, \<open>DEFAULT_P = 12\<close>.\<close>

definition Box_default :: Box where
  "Box_default =
     fold zero_coefficients [0..<12]
       \<lparr>box_level = 3, box_index = 0, box_p = 12, box_empty = True,
        box_c = replicate 13 0, box_dtilde = replicate 13 0, box_d = replicate 13 0,
        box_x = [], box_y = []\<rparr>"

definition setLevel :: "nat \<Rightarrow> Box \<Rightarrow> Box" where
  "setLevel i b = b\<lparr>box_level := i\<rparr>"

definition setIndex :: "cint \<Rightarrow> Box \<Rightarrow> Box" where
  "setIndex i b = b\<lparr>box_index := i\<rparr>"

definition setP :: "int \<Rightarrow> Box \<Rightarrow> Box" where
  "setP p b = b\<lparr>box_p := p\<rparr>"

definition addX :: "Point \<Rightarrow> Box \<Rightarrow> Box" where
  "addX q b = b\<lparr>box_x := box_x b @ [q]\<rparr>"

definition addY :: "Point \<Rightarrow> Box \<Rightarrow> Box" where
  "addY q b = b\<lparr>box_y := box_y b @ [q]\<rparr>"

text \<open>\<open>Box::getSize\<close>: \<open>std::pow(2.0, -level)\<close>.\<close>

definition getSize :: "Box \<Rightarrow> real" where
  "getSize b = 1 / 2 ^ box_level b"

definition getCenter :: "Box \<Rightarrow> Point" where
  "getCenter b =
     \<lparr>coord = (uninterleave (box_index b) (box_level b) + Complex 0.5 0.5)
                * complex_of_real (getSize b)\<rparr>"

text \<open>
  A loop in which a step may fail: the first failure ends it, as reading past the end
  of a vector ends the defined behaviour of the program.
\<close>

fun foldE :: "('a \<Rightarrow> 's \<Rightarrow> failure + 's) \<Rightarrow> 'a list \<Rightarrow> 's \<Rightarrow> failure + 's" where
  "foldE f [] s = Inr s"
| "foldE f (a # as) s = (case f a s of Inl e \<Rightarrow> Inl e | Inr s' \<Rightarrow> foldE f as s')"

text \<open>One step \<open>v[i] = v[i] + increment[i]\<close> of the three accumulation loops.\<close>

definition add_at :: "complex list \<Rightarrow> nat \<Rightarrow> complex list \<Rightarrow> failure + complex list" where
  "add_at increment i v =
     (if i < length increment \<and> i < length v then Inr (v[i := v ! i + increment ! i])
      else Inl OutOfBounds)"

definition addToC :: "complex list \<Rightarrow> Box \<Rightarrow> failure + Box" where
  "addToC increment b =
     (case foldE (add_at increment) [0..<length (box_c b)] (box_c b) of
        Inl e \<Rightarrow> Inl e
      | Inr v \<Rightarrow> Inr (b\<lparr>box_c := v\<rparr>))"

definition addToD :: "complex list \<Rightarrow> Box \<Rightarrow> failure + Box" where
  "addToD increment b =
     (case foldE (add_at increment) [0..<length (box_d b)] (box_d b) of
        Inl e \<Rightarrow> Inl e
      | Inr v \<Rightarrow> Inr (b\<lparr>box_d := v\<rparr>))"

definition addToDtilde :: "complex list \<Rightarrow> Box \<Rightarrow> failure + Box" where
  "addToDtilde increment b =
     (case foldE (add_at increment) [0..<length (box_dtilde b)] (box_dtilde b) of
        Inl e \<Rightarrow> Inl e
      | Inr v \<Rightarrow> Inr (b\<lparr>box_dtilde := v\<rparr>))"

text \<open>\<open>Box::getParentIndex\<close>: \<open>index >> 2\<close>, an arithmetic shift on \<open>int\<close>.\<close>

definition getParentIndex :: "Box \<Rightarrow> cint" where
  "getParentIndex b = signed_drop_bit 2 (box_index b)"

text \<open>
  The two nested loops over \<open>i, j \<in> {-1, 0, 1}\<close> shared by \<open>getNeighborsIndex\<close> and
  \<open>getParentsNeighborsIndex\<close>. The bound \<open>std::pow(2, level)\<close> is a double.
\<close>

definition offsets :: "cint list" where
  "offsets = [- 1, 0, 1]"

definition neighbor_loop :: "cint \<Rightarrow> cint \<Rightarrow> nat \<Rightarrow> cint list" where
  "neighbor_loop x y level =
     concat (map (\<lambda>i. concat (map (\<lambda>j.
       if (i \<noteq> 0 \<or> j \<noteq> 0)
          \<and> 0 \<le> sint (x + i) \<and> real_of_int (sint (x + i)) < 2 ^ level
          \<and> 0 \<le> sint (y + j) \<and> real_of_int (sint (y + j)) < 2 ^ level
       then [interleave (x + i) (y + j) level] else []) offsets)) offsets)"

definition getNeighborsIndex :: "Box \<Rightarrow> cint list" where
  "getNeighborsIndex b =
     (let tmp = uninterleave (box_index b) (box_level b);
          x = int_of_double (Re tmp);
          y = int_of_double (Im tmp)
      in neighbor_loop x y (box_level b))"

text \<open>
  \<open>getParentsNeighborsIndex\<close> works at \<open>level - 1\<close>. At level \<open>0\<close> the C++ value
  \<open>-1\<close> runs no loop of \<open>interleave\<close> or \<open>uninterleave\<close> and bounds the grid by
  \<open>0.5\<close>, which for integers is the bound \<open>1\<close> of level \<open>0\<close>.
\<close>

definition getParentsNeighborsIndex :: "Box \<Rightarrow> cint list" where
  "getParentsNeighborsIndex b =
     (let parent_index = getParentIndex b;
          tmp = uninterleave parent_index (box_level b - 1);
          x = int_of_double (Re tmp);
          y = int_of_double (Im tmp)
      in neighbor_loop x y (box_level b - 1))"

definition getChildrenIndex :: "Box \<Rightarrow> cint list" where
  "getChildrenIndex b = map (\<lambda>i. push_bit 2 (box_index b) + i) [0, 1, 2, 3]"

definition getChildrenIndexOfBox :: "nat \<Rightarrow> cint \<Rightarrow> cint list" where
  "getChildrenIndexOfBox levelOfBox indexOfBox =
     map (\<lambda>i. push_bit 2 indexOfBox + i) [0, 1, 2, 3]"

definition getNeighborsE4Index :: "Box \<Rightarrow> cint list" where
  "getNeighborsE4Index b =
     (let neighbor_indexes = getNeighborsIndex b;
          parents_neighbor_indexes = getParentsNeighborsIndex b;
          parent_neighbor_children_indexes =
            concat (map (getChildrenIndexOfBox (box_level b - 1)) parents_neighbor_indexes)
      in filter (\<lambda>m. \<not> list_ex (\<lambda>nb. m = nb) neighbor_indexes)
           parent_neighbor_children_indexes)"


text \<open>
  The member functions of \<open>Box\<close> that change a box, as calls that can be put in
  a sequence.
\<close>

datatype box_call =
    SetLevel nat
  | SetIndex cint
  | SetP int
  | AddToC "complex list"
  | AddToD "complex list"
  | AddToDtilde "complex list"
  | AddX Point
  | AddY Point

fun call :: "box_call \<Rightarrow> Box \<Rightarrow> failure + Box" where
  "call (SetLevel i) b = Inr (setLevel i b)"
| "call (SetIndex i) b = Inr (setIndex i b)"
| "call (SetP p) b = Inr (setP p b)"
| "call (AddToC increment) b = addToC increment b"
| "call (AddToD increment) b = addToD increment b"
| "call (AddToDtilde increment) b = addToDtilde increment b"
| "call (AddX q) b = Inr (addX q b)"
| "call (AddY q) b = Inr (addY q b)"

section \<open>Potential.cc\<close>

record Potential =
  pot_p :: int

text \<open>
  \<open>Potential::getSCoeff\<close>: \<open>ans(p)\<close>, then \<open>ans[0] = 1\<close>, then
  \<open>ans[i] = -1.0 * pow(xi - xstar, i) / (double) i\<close> for \<open>1 \<le> i < p\<close>.
  A negative \<open>p\<close> makes the vector constructor throw; \<open>p = 0\<close> writes \<open>ans[0]\<close>
  of an empty vector.
\<close>

definition getSCoeff :: "Potential \<Rightarrow> complex \<Rightarrow> complex \<Rightarrow> failure + complex list" where
  "getSCoeff pot xi xstar =
     (let p = pot_p pot in
      if p < 0 then Inl LengthError
      else if p = 0 then Inl OutOfBounds
      else Inr (fold (\<lambda>i ans. ans[i := - 1 * (xi - xstar) ^ i / of_nat i])
                  [1..<nat p] ((replicate (nat p) 0)[0 := 1])))"

definition getRVector :: "Potential \<Rightarrow> complex \<Rightarrow> complex \<Rightarrow> failure + complex list" where
  "getRVector pot yc xstar =
     (let p = pot_p pot in
      if p < 0 then Inl LengthError
      else Inr (fold (\<lambda>i rVec. rVec[i := (yc - xstar) ^ i]) [0..<nat p]
                  (replicate (nat p) 0)))"

text \<open>\<open>std::log\<close> on a complex number: the principal value.\<close>

definition clog :: "complex \<Rightarrow> complex" where
  "clog z = Complex (ln (cmod z)) (Arg z)"

definition direct :: "complex \<Rightarrow> complex \<Rightarrow> complex" where
  "direct yj xi = clog (yj - xi)"

text \<open>Entries of a matrix stored as a vector of rows.\<close>

definition mat_get :: "complex list list \<Rightarrow> nat \<Rightarrow> nat \<Rightarrow> complex" where
  "mat_get m i j = m ! i ! j"

definition mat_set :: "complex list list \<Rightarrow> nat \<Rightarrow> nat \<Rightarrow> complex \<Rightarrow> complex list list" where
  "mat_set m i j v = m[i := (m ! i)[j := v]]"

text \<open>
  The row-by-vector products that end the three translation operators:
  \<open>ans[i] = 0; ans[i] = ans[i] + m[i][j] * coeff[j]\<close> for \<open>i, j < p\<close>.
\<close>

definition mat_vec :: "nat \<Rightarrow> complex list list \<Rightarrow> complex list \<Rightarrow> complex list" where
  "mat_vec n m coeff =
     fold (\<lambda>i ans. fold (\<lambda>j ans. ans[i := ans ! i + mat_get m i j * coeff ! j]) [0..<n]
                      (ans[i := 0]))
          [0..<n] (replicate n 0)"

text \<open>
  \<open>Potential::getSS\<close>. The matrix is \<open>p \<times> p\<close>; the write \<open>ss[1][0] = t\<close> needs
  \<open>p \<ge> 2\<close>, and the product reads \<open>sCoeff[j]\<close> for every \<open>j < p\<close>.
\<close>

definition getSS :: "Potential \<Rightarrow> complex \<Rightarrow> complex \<Rightarrow> complex list \<Rightarrow> failure + complex list" where
  "getSS pot from_c to_c sCoeff =
     (let p = pot_p pot; t = to_c - from_c in
      if p < 0 then Inl LengthError
      else if p < 2 then Inl OutOfBounds
      else
        let n = nat p;
            ss0 = replicate n (replicate n 0);
            ss1 = fold (\<lambda>i ss. mat_set ss i i 1) [0..<n] ss0;
            ss2 = mat_set ss1 1 0 t;
            ss3 = fold (\<lambda>i ss. mat_set ss i 0
                      (mat_get ss (i - 1) 0 * of_nat (i - 1) * (- 1) / of_nat i))
                    [2..<n] ss2;
            ss4 = fold (\<lambda>i ss. fold (\<lambda>j ss. mat_set ss i j
                      ((- 1) * mat_get ss i (j + 1) * (of_nat j / of_nat (i - j))))
                      (rev [1..<i]) ss)
                    [1..<n] ss3;
            ss5 = fold (\<lambda>i ss. fold (\<lambda>j ss. mat_set ss i j 0) [i + 1..<n] ss) [0..<n] ss4
        in if length sCoeff < n then Inl OutOfBounds
           else Inr (mat_vec n ss5 sCoeff))"

text \<open>
  \<open>Potential::getSR\<close>. After allocating the matrix it takes \<open>std::log(t)\<close> and
  \<open>1.0 / t\<close>; at \<open>t = 0\<close> neither is a finite number, and the exact model, which
  has no infinities, reports \<open>NotFinite\<close> there. The writes \<open>sr[0][0]\<close> and
  \<open>sr[1][0]\<close> need \<open>p \<ge> 2\<close>.
\<close>

definition getSR :: "Potential \<Rightarrow> complex \<Rightarrow> complex \<Rightarrow> complex list \<Rightarrow> failure + complex list" where
  "getSR pot from_c to_c sCoeff =
     (let p = pot_p pot; t = to_c - from_c in
      if p < 0 then Inl LengthError
      else if t = 0 then Inl NotFinite
      else if p < 2 then Inl OutOfBounds
      else
        let n = nat p;
            sr0 = replicate n (replicate n 0);
            sr1 = mat_set sr0 0 0 (clog t);
            sr2 = mat_set sr1 1 0 (1 / t);
            sr3 = fold (\<lambda>i sr. mat_set sr i 0
                      (- 1 * mat_get sr (i - 1) 0 * of_nat (i - 1) / (of_nat i * t)))
                    [2..<n] sr2;
            sr4 = fold (\<lambda>j sr. mat_set sr 0 j (1 / t ^ j)) [1..<n] sr3;
            sr5 = fold (\<lambda>i sr. fold (\<lambda>j sr. mat_set sr i j
                      ((- 1) * mat_get sr (i - 1) j * of_nat (i + j - 1) / of_nat i))
                      [1..<n] sr)
                    [1..<n] sr4
        in if length sCoeff < n then Inl OutOfBounds
           else Inr (mat_vec n sr5 sCoeff))"



section \<open>FmmTree.cc\<close>

record FmmTree =
  numOfLevels :: nat
  currLevel :: nat
  fmm_x :: "Point list"
  fmm_y :: "Point list"
  potential :: Potential
  tree_structure :: "Box list list"
  numOpsIndirect :: int
  numOpsDirect :: int

text \<open>
  Reading \<open>tree_structure[el][k]\<close>, and running a member function on that box in
  place. The index \<open>k\<close> is an \<open>int\<close> converted to an unsigned size, so a negative
  address is out of range like a large one.
\<close>

definition box_at :: "FmmTree \<Rightarrow> nat \<Rightarrow> cint \<Rightarrow> failure + Box" where
  "box_at ft el k =
     (if el < length (tree_structure ft) \<and> 0 \<le> sint k
         \<and> nat (sint k) < length (tree_structure ft ! el)
      then Inr (tree_structure ft ! el ! nat (sint k))
      else Inl OutOfBounds)"

definition on_box :: "nat \<Rightarrow> cint \<Rightarrow> (Box \<Rightarrow> failure + Box) \<Rightarrow> FmmTree \<Rightarrow> failure + FmmTree" where
  "on_box el k f ft =
     (case box_at ft el k of
        Inl e \<Rightarrow> Inl e
      | Inr b \<Rightarrow>
          (case f b of
             Inl e \<Rightarrow> Inl e
           | Inr b' \<Rightarrow>
               Inr (ft\<lparr>tree_structure :=
                      (tree_structure ft)[el := (tree_structure ft ! el)[nat (sint k) := b']]\<rparr>)))"

text \<open>
  The first loop of \<open>initStruct\<close>: level \<open>i\<close> is resized to \<open>4^i\<close> boxes, which
  \<open>resize\<close> default-constructs, and each gets its level, its index and the order
  \<open>p\<close> of the potential by the setters.
\<close>

definition make_level :: "Potential \<Rightarrow> nat \<Rightarrow> Box list" where
  "make_level pot i =
     map (\<lambda>j. setP (pot_p pot) (setIndex (of_nat j) (setLevel i Box_default))) [0..<4 ^ i]"

definition sortX :: "Point \<Rightarrow> FmmTree \<Rightarrow> failure + FmmTree" where
  "sortX q ft =
     on_box (numOfLevels ft - 1) (getBoxIndex q (numOfLevels ft - 1)) (\<lambda>b. Inr (addX q b)) ft"

definition sortY :: "Point \<Rightarrow> FmmTree \<Rightarrow> failure + FmmTree" where
  "sortY q ft =
     on_box (numOfLevels ft - 1) (getBoxIndex q (numOfLevels ft - 1)) (\<lambda>b. Inr (addY q b)) ft"

definition initStruct :: "FmmTree \<Rightarrow> failure + FmmTree" where
  "initStruct ft =
     (let ft1 = ft\<lparr>tree_structure :=
                   map (make_level (potential ft)) [0..<length (tree_structure ft)]\<rparr>
      in case foldE sortX (fmm_x ft1) ft1 of
           Inl e \<Rightarrow> Inl e
         | Inr ft2 \<Rightarrow> foldE sortY (fmm_y ft2) ft2)"

text \<open>
  The constructor \<open>FmmTree(int level, sources, targets, potential)\<close>. The member
  \<open>tree_structure(numOfLevels)\<close> is built before the body runs, and a negative size
  makes it throw; then the two assertions; then \<open>x\<close> and \<open>y\<close> are both given the
  length of \<open>sources\<close> and filled by \<open>x[i] = sources[i]; y[i] = targets[i]\<close>, which
  reads past the end of a shorter \<open>targets\<close>. The counter \<open>numOpsDirect\<close> is left
  uninitialised by the source; the model starts it at \<open>0\<close>.
\<close>

definition FmmTree_init :: "int \<Rightarrow> Point list \<Rightarrow> Point list \<Rightarrow> Potential \<Rightarrow> failure + FmmTree" where
  "FmmTree_init level sources targets pot =
     (if level < 0 then Inl LengthError
      else if \<not> level > 0 then Inl AssertionFailed
      else if \<not> level \<le> 8 then Inl AssertionFailed
      else if length targets < length sources then Inl OutOfBounds
      else initStruct
             \<lparr>numOfLevels = nat level, currLevel = nat level - 1,
              fmm_x = sources, fmm_y = take (length sources) targets,
              potential = pot, tree_structure = replicate (nat level) [],
              numOpsIndirect = 0, numOpsDirect = 0\<rparr>)"

text \<open>\<open>FmmTree::getIndex\<close>: the first position of \<open>z\<close> that \<open>equals\<close> the point, or \<open>-1\<close>.\<close>

fun getIndex_from :: "int \<Rightarrow> Point list \<Rightarrow> Point \<Rightarrow> int" where
  "getIndex_from i [] q = - 1"
| "getIndex_from i (z # zs) q = (if equals z q then i else getIndex_from (i + 1) zs q)"

definition getIndex :: "Point list \<Rightarrow> Point \<Rightarrow> int" where
  "getIndex z q = getIndex_from 0 z q"

text \<open>Reading \<open>u[i]\<close> for an \<open>int\<close> index.\<close>

definition charge_at :: "real list \<Rightarrow> int \<Rightarrow> failure + real" where
  "charge_at u i = (if 0 \<le> i \<and> nat i < length u then Inr (u ! nat i) else Inl OutOfBounds)"

subsection \<open>upwardPass\<close>

text \<open>The body of the loop over the sources of one leaf box.\<close>

definition seed_source :: "real list \<Rightarrow> nat \<Rightarrow> Point \<Rightarrow> FmmTree \<Rightarrow> failure + FmmTree" where
  "seed_source u i thisX ft =
     (let el = numOfLevels ft - 1 in
      case box_at ft el (of_nat i) of
        Inl e \<Rightarrow> Inl e
      | Inr thisBox \<Rightarrow>
      case getSCoeff (potential ft) (coord thisX) (coord (getCenter thisBox)) of
        Inl e \<Rightarrow> Inl e
      | Inr B \<Rightarrow>
      case charge_at u (getIndex (fmm_x ft) thisX) of
        Inl e \<Rightarrow> Inl e
      | Inr thisU \<Rightarrow>
          on_box el (of_nat i) (addToC (map (\<lambda>b. b * complex_of_real thisU) B))
            (ft\<lparr>numOpsIndirect := numOpsIndirect ft + 1 + pot_p (potential ft)
                    + int (length B) + pot_p (potential ft)\<rparr>))"

definition seed_box :: "real list \<Rightarrow> nat \<Rightarrow> FmmTree \<Rightarrow> failure + FmmTree" where
  "seed_box u i ft =
     (case box_at ft (numOfLevels ft - 1) (of_nat i) of
        Inl e \<Rightarrow> Inl e
      | Inr thisBox \<Rightarrow> foldE (seed_source u i) (box_x thisBox) ft)"

text \<open>The body of the loop over the boxes \<open>k\<close> of level \<open>el\<close> in the translation part.\<close>

definition lift_box :: "nat \<Rightarrow> nat \<Rightarrow> FmmTree \<Rightarrow> failure + FmmTree" where
  "lift_box el k ft =
     (case box_at ft el (of_nat k) of
        Inl e \<Rightarrow> Inl e
      | Inr thisBox \<Rightarrow>
      case box_at ft (el - 1) (getParentIndex thisBox) of
        Inl e \<Rightarrow> Inl e
      | Inr parentBox \<Rightarrow>
      case getSS (potential ft) (coord (getCenter thisBox)) (coord (getCenter parentBox))
             (box_c thisBox) of
        Inl e \<Rightarrow> Inl e
      | Inr newCoeffs \<Rightarrow>
          on_box (el - 1) (getParentIndex thisBox) (addToC newCoeffs)
            (ft\<lparr>numOpsIndirect := numOpsIndirect ft + 3 + (pot_p (potential ft))\<^sup>2
                    + pot_p (potential ft)\<rparr>))"

definition lift_level :: "nat \<Rightarrow> FmmTree \<Rightarrow> failure + FmmTree" where
  "lift_level el ft =
     (if el < length (tree_structure ft)
      then foldE (lift_box el) [0..<length (tree_structure ft ! el)] ft
      else Inl OutOfBounds)"

definition upwardPass :: "real list \<Rightarrow> FmmTree \<Rightarrow> failure + FmmTree" where
  "upwardPass u ft =
     (if numOfLevels ft - 1 < length (tree_structure ft)
      then case foldE (seed_box u)
                  [0..<length (tree_structure ft ! (numOfLevels ft - 1))] ft of
             Inl e \<Rightarrow> Inl e
           | Inr ft1 \<Rightarrow> foldE lift_level (rev [2..<numOfLevels ft1]) ft1
      else Inl OutOfBounds)"

subsection \<open>downwardPass1\<close>

definition interact :: "nat \<Rightarrow> nat \<Rightarrow> cint \<Rightarrow> FmmTree \<Rightarrow> failure + FmmTree" where
  "interact el k m ft =
     (case box_at ft el m of
        Inl e \<Rightarrow> Inl e
      | Inr thisBoxE4Neighbor \<Rightarrow>
      case box_at ft el (of_nat k) of
        Inl e \<Rightarrow> Inl e
      | Inr thisBox \<Rightarrow>
      case getSR (potential ft) (coord (getCenter thisBoxE4Neighbor))
             (coord (getCenter thisBox)) (box_c thisBoxE4Neighbor) of
        Inl e \<Rightarrow> Inl e
      | Inr newCoeffs \<Rightarrow>
          on_box el (of_nat k) (addToDtilde newCoeffs)
            (ft\<lparr>numOpsIndirect := numOpsIndirect ft + 2\<rparr>))"

definition interact_box :: "nat \<Rightarrow> nat \<Rightarrow> FmmTree \<Rightarrow> failure + FmmTree" where
  "interact_box el k ft =
     (case box_at ft el (of_nat k) of
        Inl e \<Rightarrow> Inl e
      | Inr thisBox \<Rightarrow> foldE (interact el k) (getNeighborsE4Index thisBox) ft)"

definition interact_level :: "nat \<Rightarrow> FmmTree \<Rightarrow> failure + FmmTree" where
  "interact_level el ft =
     (if el < length (tree_structure ft)
      then foldE (interact_box el) [0..<length (tree_structure ft ! el)] ft
      else Inl OutOfBounds)"

definition downwardPass1 :: "FmmTree \<Rightarrow> failure + FmmTree" where
  "downwardPass1 ft = foldE interact_level [2..<numOfLevels ft] ft"


subsection \<open>downwardPass2\<close>






subsection \<open>The evaluation loop that ends solve\<close>

text \<open>
  The state of the loop is the whole solver object together with the local vector
  \<open>v\<close>; inside the loops over one target it carries the running sum
  (\<open>regPart\<close> or \<open>sinPart\<close>) in place of \<open>v\<close>.
\<close>

definition reg_term :: "complex list \<Rightarrow> complex list \<Rightarrow> nat \<Rightarrow> FmmTree \<times> real
    \<Rightarrow> failure + FmmTree \<times> real" where
  "reg_term dv rVec k st =
     (if k < length rVec
      then Inr ((fst st)\<lparr>numOpsIndirect := numOpsIndirect (fst st) + 1\<rparr>,
                snd st + Re (dv ! k * rVec ! k))
      else Inl OutOfBounds)"

definition near_source :: "real list \<Rightarrow> Point \<Rightarrow> Point \<Rightarrow> FmmTree \<times> real
    \<Rightarrow> failure + FmmTree \<times> real" where
  "near_source u thisY thisX st =
     (case charge_at u (getIndex (fmm_x (fst st)) thisX) of
        Inl e \<Rightarrow> Inl e
      | Inr thisU \<Rightarrow>
          let thisYCoord = coord thisY;
              thisXCoord = coord thisX;
              maxXY = max_magnitude (abs_complex thisXCoord) (abs_complex thisYCoord);
              maxXYOne = max_magnitude (Finite 1) maxXY
          in if le_magnitude (abs_complex (minus_complex thisYCoord thisXCoord))
                  (times_magnitude epsilon maxXYOne) then Inr st
             else let inc = direct (coord thisY) (coord thisX) * complex_of_real thisU
                  in Inr ((fst st)\<lparr>numOpsIndirect := numOpsIndirect (fst st) + 1\<rparr>,
                          snd st + Re inc))"

definition near_box :: "real list \<Rightarrow> Point \<Rightarrow> cint \<Rightarrow> FmmTree \<times> real
    \<Rightarrow> failure + FmmTree \<times> real" where
  "near_box u thisY m st =
     (case box_at (fst st) (numOfLevels (fst st) - 1) m of
        Inl e \<Rightarrow> Inl e
      | Inr thisNeighborsBox \<Rightarrow> foldE (near_source u thisY) (box_x thisNeighborsBox) st)"

definition eval_target :: "real list \<Rightarrow> nat \<Rightarrow> Point \<Rightarrow> FmmTree \<times> real list
    \<Rightarrow> failure + FmmTree \<times> real list" where
  "eval_target u i thisY st =
     (let ft = fst st; v = snd st in
      case box_at ft (numOfLevels ft - 1) (of_nat i) of
        Inl e \<Rightarrow> Inl e
      | Inr thisBox \<Rightarrow>
      case getRVector (potential ft) (coord thisY) (coord (getCenter thisBox)) of
        Inl e \<Rightarrow> Inl e
      | Inr rVec \<Rightarrow>
      case foldE (reg_term (box_d thisBox) rVec) [0..<length (box_d thisBox)]
             (ft\<lparr>numOpsIndirect := numOpsIndirect ft + pot_p (potential ft)\<rparr>, 0) of
        Inl e \<Rightarrow> Inl e
      | Inr (ft1, regPart) \<Rightarrow>
      case foldE (near_box u thisY) (getNeighborsIndex thisBox @ [box_index thisBox])
             (ft1, 0) of
        Inl e \<Rightarrow> Inl e
      | Inr (ft2, sinPart) \<Rightarrow>
          let n = getIndex (fmm_y ft2) thisY in
          if 0 \<le> n \<and> nat n < length v then Inr (ft2, v[nat n := sinPart + regPart])
          else Inl OutOfBounds)"

definition eval_box :: "real list \<Rightarrow> nat \<Rightarrow> FmmTree \<times> real list
    \<Rightarrow> failure + FmmTree \<times> real list" where
  "eval_box u i st =
     (case box_at (fst st) (numOfLevels (fst st) - 1) (of_nat i) of
        Inl e \<Rightarrow> Inl e
      | Inr thisBox \<Rightarrow> foldE (eval_target u i) (box_y thisBox) st)"

definition evaluate :: "real list \<Rightarrow> FmmTree \<Rightarrow> failure + FmmTree \<times> real list" where
  "evaluate u ft =
     (if numOfLevels ft - 1 < length (tree_structure ft)
      then foldE (eval_box u) [0..<length (tree_structure ft ! (numOfLevels ft - 1))]
             (ft, replicate (length (fmm_y ft)) 0)
      else Inl OutOfBounds)"


subsection \<open>solveDirect\<close>

text \<open>The body of the inner loop, for target \<open>j\<close> and source \<open>i\<close>.\<close>

definition direct_pair :: "real list \<Rightarrow> nat \<Rightarrow> nat \<Rightarrow> FmmTree \<times> real list
    \<Rightarrow> failure + FmmTree \<times> real list" where
  "direct_pair u j i st =
     (let ft = fst st; v = snd st;
          yj = coord (fmm_y ft ! j);
          xi = coord (fmm_x ft ! i);
          maxXY = max_magnitude (abs_complex yj) (abs_complex xi);
          maxXYOne = max_magnitude (Finite 1) maxXY
      in if le_magnitude (abs_complex (minus_complex yj xi))
              (times_magnitude epsilon maxXYOne) then Inr st
         else case charge_at u (int i) of
                Inl e \<Rightarrow> Inl e
              | Inr ui \<Rightarrow>
                  Inr (ft\<lparr>numOpsDirect := numOpsDirect ft + 1\<rparr>,
                       v[j := v ! j + Re (complex_of_real ui * direct yj xi)]))"

definition solveDirect :: "real list \<Rightarrow> FmmTree \<Rightarrow> failure + FmmTree \<times> real list" where
  "solveDirect u ft =
     foldE (\<lambda>j. foldE (direct_pair u j) [0..<length (fmm_x ft)])
       [0..<length (fmm_y ft)] (ft, replicate (length (fmm_y ft)) 0)"

section \<open>The coincidence rule\<close>

text \<open>
  Target \<open>yc\<close> and source \<open>xc\<close> coincide when
  \<open>|yc - xc| \<le> machineEpsilon \<sqdot> max(1, |xc|, |yc|)\<close>, every operation being the
  double-precision one: the test of lines 374-378 of \<open>FmmTree.cc\<close>.
\<close>

definition coincident :: "complex \<Rightarrow> complex \<Rightarrow> bool" where
  "coincident yc xc \<longleftrightarrow>
     le_magnitude (abs_complex (minus_complex yc xc))
       (times_magnitude epsilon
          (max_magnitude (Finite 1) (max_magnitude (abs_complex xc) (abs_complex yc))))"

section \<open>The shape of a built tree\<close>

text \<open>
  What \<open>initStruct\<close> establishes and every later phase keeps: level \<open>el\<close> holds
  \<open>4^el\<close> boxes, and the box at position \<open>k\<close> of level \<open>el\<close> carries that level
  and that address.
\<close>

definition box_ok :: "nat \<Rightarrow> nat \<Rightarrow> Box \<Rightarrow> bool" where
  "box_ok el k b \<longleftrightarrow> box_level b = el \<and> box_index b = of_nat k"

definition level_ok :: "nat \<Rightarrow> Box list \<Rightarrow> bool" where
  "level_ok el row \<longleftrightarrow> length row = 4 ^ el \<and> (\<forall>k<length row. box_ok el k (row ! k))"

definition tree_inv :: "FmmTree \<Rightarrow> bool" where
  "tree_inv ft \<longleftrightarrow>
     1 \<le> numOfLevels ft \<and> numOfLevels ft \<le> 8
     \<and> length (tree_structure ft) = numOfLevels ft
     \<and> (\<forall>el<length (tree_structure ft). level_ok el (tree_structure ft ! el))"

text \<open>The fields that no phase after the constructor's first lines changes.\<close>

definition same_setup :: "FmmTree \<Rightarrow> FmmTree \<Rightarrow> bool" where
  "same_setup ft ft' \<longleftrightarrow>
     numOfLevels ft' = numOfLevels ft \<and> fmm_x ft' = fmm_x ft \<and> fmm_y ft' = fmm_y ft
     \<and> potential ft' = potential ft"

text \<open>Two solver states that differ at most in the operation counter \<open>numOpsIndirect\<close>.\<close>

definition same_but_ops :: "FmmTree \<Rightarrow> FmmTree \<Rightarrow> bool" where
  "same_but_ops ft ft' \<longleftrightarrow> ft' = ft\<lparr>numOpsIndirect := numOpsIndirect ft'\<rparr>"

section \<open>Rounding of concrete values\<close>

lemma round_even_of_int: "round_even (of_int m) = m"
  by (simp add: round_even_def)



lemma round_even_nonneg:
  assumes "0 \<le> r"
  shows "0 \<le> round_even r"
proof -
  have "0 \<le> \<lfloor>r\<rfloor>" using assms by simp
  then show ?thesis by (simp add: round_even_def Let_def)
qed

lemma exponent_doubleI:
  assumes "2 powi e \<le> \<bar>r\<bar>" and "\<bar>r\<bar> < 2 powi (e + 1)" and "- 1022 \<le> e"
  shows "exponent_double r = e"
proof -
  have p: "0 < \<bar>r\<bar>" using assms(1) by (smt (verit) zero_less_power_int)
  have "\<lfloor>log 2 \<bar>r\<bar>\<rfloor> = e"
  proof (rule floor_unique)
    show "of_int e \<le> log 2 \<bar>r\<bar>"
      using assms(1) p by (simp add: le_log_iff powr_real_of_int')
    have "2 powr real_of_int (e + 1) = (2::real) powi (e + 1)"
      using powr_real_of_int'[of 2 "e + 1"] by fastforce
    then have "\<bar>r\<bar> < 2 powr real_of_int (e + 1)"
      using assms(2) by (simp only:)
    then have "log 2 \<bar>r\<bar> < real_of_int (e + 1)"
      using p by (simp only: log_less_iff)
    then show "log 2 \<bar>r\<bar> < of_int e + 1" by simp
  qed
  then show ?thesis using assms(3) by (simp add: exponent_double_def)
qed

lemma round_double_0: "round_double 0 = 0"
  by (simp add: round_double_def)

lemma round_double_exact:
  assumes "exponent_double r = e" and "r = of_int m * 2 powi (e - 52)"
  shows "round_double r = r"
proof (cases "r = 0")
  case True
  then show ?thesis by (simp add: round_double_def)
next
  case False
  have "r / 2 powi (e - 52) = of_int m" using assms(2) by simp
  then show ?thesis
    unfolding round_double_def Let_def assms(1) using False assms(2)
    by (simp add: round_even_of_int)
qed



lemma round_double_nonneg:
  assumes "0 \<le> r"
  shows "0 \<le> round_double r"
proof (cases "r = 0")
  case True
  then show ?thesis by (simp add: round_double_def)
next
  case False
  have "0 \<le> r / 2 powi (exponent_double r - 52)" using assms by simp
  then have "0 \<le> round_even (r / 2 powi (exponent_double r - 52))" by (rule round_even_nonneg)
  then show ?thesis unfolding round_double_def Let_def using False by simp
qed

lemma round_double_quarter: "round_double (1 / 4) = 1 / 4"
proof -
  have e: "exponent_double (1 / 4) = - 2" by (rule exponent_doubleI) simp_all
  show ?thesis by (rule round_double_exact[OF e, of "2 ^ 52"]) simp
qed

lemma round_double_half: "round_double (1 / 2) = 1 / 2"
proof -
  have e: "exponent_double (1 / 2) = - 1" by (rule exponent_doubleI) simp_all
  show ?thesis by (rule round_double_exact[OF e, of "2 ^ 52"]) simp
qed

lemma round_double_three_quarters: "round_double (3 / 4) = 3 / 4"
proof -
  have e: "exponent_double (3 / 4) = - 1" by (rule exponent_doubleI) simp_all
  show ?thesis by (rule round_double_exact[OF e, of "3 * 2 ^ 51"]) simp
qed

lemma round_double_epsilon: "round_double epsilon = epsilon"
proof -
  have e: "exponent_double epsilon = - 52"
    unfolding epsilon_def by (rule exponent_doubleI) simp_all
  show ?thesis by (rule round_double_exact[OF e, of "2 ^ 52"]) (simp add: epsilon_def)
qed

section \<open>Magnitudes\<close>

lemma abs_complex_0: "abs_complex 0 = Finite 0"
  by (simp add: abs_complex_def round_double_0 magnitude_of_def)

lemma minus_complex_self: "minus_complex a a = 0"
  by (simp add: minus_complex_def round_double_0 complex_eq_iff)

lemma abs_complex_real_axis:
  assumes "0 \<le> a" and "round_double a = a" and "a < 2 ^ 1024"
  shows "abs_complex (Complex a 0) = Finite a"
  using assms by (simp add: abs_complex_def complex_norm magnitude_of_def)

lemma magnitude_of_nonneg:
  assumes "0 \<le> r"
  shows "le_magnitude (Finite 0) (magnitude_of r)"
  using assms by (simp add: magnitude_of_def)

lemma max_magnitude_one:
  "max_magnitude (Finite 1) m = Infinity \<or> (\<exists>r. max_magnitude (Finite 1) m = Finite r \<and> 1 \<le> r)"
  by (cases m) (auto simp add: max_magnitude_def)

lemma threshold_nonneg:
  "le_magnitude (Finite 0) (times_magnitude epsilon (max_magnitude (Finite 1) m))"
proof -
  from max_magnitude_one[of m] show ?thesis
  proof
    assume "max_magnitude (Finite 1) m = Infinity"
    then show ?thesis by simp
  next
    assume "\<exists>r. max_magnitude (Finite 1) m = Finite r \<and> 1 \<le> r"
    then obtain r where r: "max_magnitude (Finite 1) m = Finite r" "1 \<le> r" by auto
    have "0 \<le> epsilon * r" using r(2) by (simp add: epsilon_def)
    then have "0 \<le> round_double (epsilon * r)" by (rule round_double_nonneg)
    then show ?thesis unfolding r(1) by (simp add: magnitude_of_nonneg)
  qed
qed

lemma equals_self: "equals q q"
  by (simp add: equals_def minus_complex_self abs_complex_0 epsilon_def)

lemma coincident_self: "coincident c c"
  unfolding coincident_def minus_complex_self abs_complex_0 by (rule threshold_nonneg)

lemma max_magnitude_commute: "max_magnitude a b = max_magnitude b a"
  by (cases a; cases b) (auto simp add: max_magnitude_def)


lemma coincident_direct_test:
  "coincident yc xc \<longleftrightarrow>
     le_magnitude (abs_complex (minus_complex yc xc))
       (times_magnitude epsilon
          (max_magnitude (Finite 1) (max_magnitude (abs_complex yc) (abs_complex xc))))"
  unfolding coincident_def max_magnitude_commute[of "abs_complex yc" "abs_complex xc"] ..

lemma far_apart: "\<not> coincident (Complex (3 / 4) 0) (Complex (1 / 4) 0)"
proof -
  have d: "minus_complex (Complex (3 / 4) 0) (Complex (1 / 4) 0) = Complex (1 / 2) 0"
    using round_double_half by (simp add: minus_complex_def round_double_0)
  have a: "abs_complex (Complex (1 / 2) 0) = Finite (1 / 2)"
    "abs_complex (Complex (1 / 4) 0) = Finite (1 / 4)"
    "abs_complex (Complex (3 / 4) 0) = Finite (3 / 4)"
    by (rule abs_complex_real_axis;
        simp add: round_double_half round_double_quarter round_double_three_quarters)+
  have m: "max_magnitude (Finite 1) (max_magnitude (Finite (1 / 4)) (Finite (3 / 4))) = Finite 1"
    by (simp add: max_magnitude_def)
  show ?thesis
    unfolding coincident_def d a m using round_double_epsilon
    by (simp add: magnitude_of_def epsilon_def)
qed

section \<open>A pair at the threshold\<close>






lemma close_pair_exact_distance:
  "epsilon * max 1 (max (cmod (Complex (1 / 4) 0)) (cmod (Complex (1 / 4 + 1 / 2 ^ 52) (1 / 2 ^ 200))))
   < cmod (Complex (1 / 4 + 1 / 2 ^ 52) (1 / 2 ^ 200) - Complex (1 / 4) 0)"
proof -
  have "cmod (Complex (1 / 4 + 1 / 2 ^ 52) (1 / 2 ^ 200)) \<le> 1"
    using cmod_le[of "Complex (1 / 4 + 1 / 2 ^ 52) (1 / 2 ^ 200)"] by simp
  then have m: "max 1 (max (cmod (Complex (1 / 4) 0)) (cmod (Complex (1 / 4 + 1 / 2 ^ 52) (1 / 2 ^ 200)))) = 1"
    by (simp add: complex_norm)
  have d: "Complex (1 / 4 + 1 / 2 ^ 52) (1 / 2 ^ 200) - Complex (1 / 4) 0
      = Complex (1 / 2 ^ 52) (1 / 2 ^ 200)"
    by (simp add: complex_eq_iff)
  have "(1 / 2 ^ 52) ^ 2 < (1 / 2 ^ 52) ^ 2 + (1 / 2 ^ 200 :: real) ^ 2" by simp
  then have "sqrt ((1 / 2 ^ 52) ^ 2) < sqrt ((1 / 2 ^ 52) ^ 2 + (1 / 2 ^ 200) ^ 2)"
    by (simp only: real_sqrt_less_iff)
  then have "1 / 2 ^ 52 < cmod (Complex (1 / 2 ^ 52) (1 / 2 ^ 200))"
    by (simp add: complex_norm)
  then show ?thesis unfolding m d by (simp add: epsilon_def)
qed

section \<open>Bit-level facts about the address functions\<close>

lemma getbit_iff: "getbit n pos = (if bit n pos then 1 else 0)"
  by (simp add: getbit_def bit_iff_and_push_bit_not_eq_0)

lemma bit_setbit:
  "bit (setbit n pos (if b then 1 else 0)) k \<longleftrightarrow> (if k = pos \<and> pos < 32 then b else bit n k)"
  by (auto simp add: setbit_def bit_simps dest: bit_imp_le_length)

lemma bit_interleave_body:
  assumes "i < level"
  shows "bit (interleave_body level x y i ans) k \<longleftrightarrow>
     (if k = 2 * (level - i - 1) + 1 \<and> k < 32 then bit x (level - i - 1)
      else if k = 2 * (level - i - 1) \<and> k < 32 then bit y (level - i - 1)
      else bit ans k)"
proof -
  have p1: "(level - i) * 2 - 1 = 2 * (level - i - 1) + 1" using assms by simp
  have p2: "(level - i) * 2 - 2 = 2 * (level - i - 1)" using assms by simp
  show ?thesis
    unfolding interleave_body_def getbit_iff bit_setbit p1 p2 by simp
qed

lemma bit_interleave_fold:
  "m \<le> level \<Longrightarrow>
   bit (fold (interleave_body level x y) [0..<m] 0) k \<longleftrightarrow>
     2 * (level - m) \<le> k \<and> k < 2 * level \<and> k < 32 \<and>
     (if odd k then bit x (k div 2) else bit y (k div 2))"
proof (induction m)
  case 0
  then show ?case by simp
next
  case (Suc m)
  then have m: "m < level" by simp
  have IH: "bit (fold (interleave_body level x y) [0..<m] 0) k \<longleftrightarrow>
     2 * (level - m) \<le> k \<and> k < 2 * level \<and> k < 32 \<and>
     (if odd k then bit x (k div 2) else bit y (k div 2))"
    using Suc by simp
  define q where "q = level - m - 1"
  have lm: "level - m = Suc q" "level - Suc m = q" using m by (simp_all add: q_def)
  have lv: "2 * q + 1 < 2 * level" using m by (simp add: q_def)
  have cases: "k = 2 * q + 1 \<or> k = 2 * q \<or> k < 2 * q \<or> 2 * Suc q \<le> k" by arith
  show ?case
    unfolding upt_Suc_append[OF le0] fold_append o_apply fold_simps
      bit_interleave_body[OF m] IH lm
    unfolding q_def[symmetric]
    using cases lv by (elim disjE) simp_all
qed


lemma bit_interleave:
  "bit (interleave x y level) k \<longleftrightarrow>
     k < 2 * level \<and> k < 32 \<and> (if odd k then bit x (k div 2) else bit y (k div 2))"
  by (simp add: interleave_def bit_interleave_fold)

lemma bit_uninterleave_body:
  "bit (fst (uninterleave_body L n i xy)) k \<longleftrightarrow>
     (if k = L - i - 1 \<and> k < 32 then bit n (2 * k + 1) else bit (fst xy) k)"
  "bit (snd (uninterleave_body L n i xy)) k \<longleftrightarrow>
     (if k = L - i - 1 \<and> k < 32 then bit n (2 * k) else bit (snd xy) k)"
  unfolding uninterleave_body_def fst_conv snd_conv getbit_iff bit_setbit
  by (simp_all add: mult.commute)

lemma bit_uninterleave_fold:
  "m \<le> L \<Longrightarrow>
   (bit (fst (fold (uninterleave_body L n) [0..<m] (0, 0))) k \<longleftrightarrow>
      L - m \<le> k \<and> k < L \<and> k < 32 \<and> bit n (2 * k + 1)) \<and>
   (bit (snd (fold (uninterleave_body L n) [0..<m] (0, 0))) k \<longleftrightarrow>
      L - m \<le> k \<and> k < L \<and> k < 32 \<and> bit n (2 * k))"
proof (induction m)
  case 0
  then show ?case by simp
next
  case (Suc m)
  then have m: "m < L" by simp
  note IH0 = Suc.IH[OF less_imp_le[OF m]]
  note IH = IH0[THEN conjunct1] IH0[THEN conjunct2]
  define q where "q = L - m - 1"
  have lm: "L - m = Suc q" "L - Suc m = q" using m by (simp_all add: q_def)
  have lv: "q < L" using m by (simp add: q_def)
  have cases: "k = q \<or> k < q \<or> Suc q \<le> k" by arith
  show ?case
    unfolding upt_Suc_append[OF le0] fold_append o_apply fold_simps
      bit_uninterleave_body IH lm
    unfolding q_def[symmetric]
    using cases lv by (elim disjE) simp_all
qed

lemma bit_uninterleave_ints:
  "bit (fst (uninterleave_ints n L)) k \<longleftrightarrow> k < L \<and> k < 32 \<and> bit n (2 * k + 1)"
  "bit (snd (uninterleave_ints n L)) k \<longleftrightarrow> k < L \<and> k < 32 \<and> bit n (2 * k)"
  using bit_uninterleave_fold[of L L n k] by (simp_all add: uninterleave_ints_def)

lemma int_of_double_of_int: "int_of_double (real_of_int (sint w)) = w"
  unfolding int_of_double_def floor_of_int ceiling_of_int by simp

lemma uninterleave_ints_0: "uninterleave_ints 0 L = (0, 0)"
  by (rule prod_eqI; rule bit_word_eqI) (simp_all add: bit_uninterleave_ints)

lemma uninterleave_coords:
  "int_of_double (Re (uninterleave n L)) = fst (uninterleave_ints n L)"
  "int_of_double (Im (uninterleave n L)) = snd (uninterleave_ints n L)"
  unfolding uninterleave_def
  by (simp_all only: complex.sel int_of_double_of_int uninterleave_ints_0 fst_conv snd_conv
        if_distrib[of Re] if_distrib[of Im] if_distrib[of int_of_double])
    (simp_all add: int_of_double_def uninterleave_ints_0)



lemma addr_range_bits:
  fixes n :: cint
  assumes "m \<le> 31"
  shows "(0 \<le> sint n \<and> sint n < 2 ^ m) \<longleftrightarrow> (\<forall>k. bit n k \<longrightarrow> k < m)"
proof -
  have "(0 \<le> sint n \<and> sint n < 2 ^ m) \<longleftrightarrow> take_bit m (sint n) = sint n"
    by (simp add: take_bit_int_eq_self_iff)
  also have "\<dots> \<longleftrightarrow> (\<forall>k. bit (sint n) k \<longrightarrow> k < m)"
    by (auto simp add: bit_eq_iff bit_take_bit_iff)
  also have "\<dots> \<longleftrightarrow> (\<forall>k. bit n k \<longrightarrow> k < m)"
  proof
    assume h: "\<forall>k. bit (sint n) k \<longrightarrow> k < m"
    show "\<forall>k. bit n k \<longrightarrow> k < m"
      using h by (auto simp add: bit_sint_iff)
  next
    assume h: "\<forall>k. bit n k \<longrightarrow> k < m"
    have "\<not> bit n 31" using h assms by auto
    then show "\<forall>k. bit (sint n) k \<longrightarrow> k < m"
      using h by (auto simp add: bit_sint_iff)
  qed
  finally show ?thesis .
qed

lemma four_pow: "(4::int) ^ L = 2 ^ (2 * L)"
  by (simp add: power_mult)


lemma interleave_uninterleave_ints:
  assumes "L \<le> 15" and "0 \<le> sint n" and "sint n < 4 ^ L"
  shows "interleave (fst (uninterleave_ints n L)) (snd (uninterleave_ints n L)) L = n"
proof (rule bit_word_eqI)
  fix k assume k: "k < LENGTH(32)"
  have "2 * L \<le> 31" using assms(1) by simp
  from addr_range_bits[OF this, of n] assms(2,3)
  have hi: "bit n k \<Longrightarrow> k < 2 * L" by (simp add: four_pow)
  have d: "odd k \<Longrightarrow> 2 * (k div 2) + 1 = k" "even k \<Longrightarrow> 2 * (k div 2) = k"
    by presburger+
  have e: "k < 2 * L \<Longrightarrow> k div 2 < L" by simp
  show "bit (interleave (fst (uninterleave_ints n L)) (snd (uninterleave_ints n L)) L) k
          \<longleftrightarrow> bit n k"
  proof (cases "odd k")
    case True
    then show ?thesis using hi k e d(1)
      by (auto simp add: bit_interleave bit_uninterleave_ints simp del: One_nat_def)
  next
    case False
    then show ?thesis using hi k e d(2)
      by (auto simp add: bit_interleave bit_uninterleave_ints)
  qed
qed

lemma interleave_range:
  assumes "level \<le> 15"
  shows "0 \<le> sint (interleave x y level) \<and> sint (interleave x y level) < 4 ^ level"
proof -
  have "2 * level \<le> 31" using assms by simp
  from addr_range_bits[OF this, of "interleave x y level"]
  show ?thesis by (simp add: four_pow bit_interleave)
qed

lemma interleave_take_bit:
  "interleave x y level = interleave (take_bit level x) (take_bit level y) level"
  by (rule bit_word_eqI) (auto simp add: bit_interleave bit_take_bit_iff)

section \<open>Parent and child addresses\<close>

lemma sint_child:
  fixes n i :: cint
  assumes "0 \<le> sint n" "sint n < 2 ^ 29" "0 \<le> sint i" "sint i < 4"
  shows "sint (push_bit 2 n + i) = 4 * sint n + sint i"
proof -
  have "sint (push_bit 2 n) = signed_take_bit 31 (push_bit 2 (sint n))"
    unfolding signed_push_bit_eq by simp
  also have "push_bit 2 (sint n) = 4 * sint n"
    by (simp add: push_bit_eq_mult)
  also have "signed_take_bit 31 (4 * sint n) = 4 * sint n"
    using assms(1,2) by (intro signed_take_bit_int_eq_self) simp_all
  finally have a: "sint (push_bit 2 n) = 4 * sint n" .
  show ?thesis
    using assms a
    by (simp add: sint_word_ariths signed_take_bit_int_eq_self)
qed

lemma parent_of_child:
  fixes n i :: cint
  assumes "0 \<le> sint n" "sint n < 2 ^ 29" "0 \<le> sint i" "sint i < 4"
  shows "signed_drop_bit 2 (push_bit 2 n + i) = n"
proof -
  have "sint (signed_drop_bit 2 (push_bit 2 n + i)) = sint n"
    using assms by (simp add: sint_signed_drop_bit_eq sint_child[OF assms] drop_bit_eq_div)
  then show ?thesis by (rule signed_word_eqI)
qed

lemma child_range:
  fixes n i :: cint
  assumes "L \<le> 14" "0 \<le> sint n" "sint n < 4 ^ L" "0 \<le> sint i" "sint i < 4"
  shows "0 \<le> sint (push_bit 2 n + i) \<and> sint (push_bit 2 n + i) < 4 ^ Suc L"
proof -
  have "(4::int) ^ L \<le> 4 ^ 14" using assms(1) by (intro power_increasing) simp_all
  then have "sint n < 2 ^ 29" using assms(3) by simp
  from sint_child[OF assms(2) this assms(4,5)] assms show ?thesis by simp
qed

lemma sint_small: "i \<in> {0, 1, 2, 3 :: cint} \<Longrightarrow> 0 \<le> sint i \<and> sint i < 4"
  by auto

lemma children_set:
  "ch \<in> set (getChildrenIndex b) \<Longrightarrow> \<exists>i\<in>{0, 1, 2, 3}. ch = push_bit 2 (box_index b) + i"
  unfolding getChildrenIndex_def by simp

section \<open>Loops that may fail, and access to the boxes\<close>

lemma foldE_Inr_induct:
  assumes "foldE f xs s = Inr s'" and "P s"
    and "\<And>a t t'. a \<in> set xs \<Longrightarrow> P t \<Longrightarrow> f a t = Inr t' \<Longrightarrow> P t'"
  shows "P s'"
  using assms
proof (induction xs arbitrary: s)
  case Nil
  then show ?case by simp
next
  case (Cons a xs)
  from Cons.prems(1) obtain t where t: "f a s = Inr t" "foldE f xs t = Inr s'"
    by (simp split: sum.splits)
  have "P t" using Cons.prems(3)[of a s t] t(1) Cons.prems(2) by simp
  show ?case
  proof (rule Cons.IH[OF t(2) \<open>P t\<close>])
    fix b u u' assume "b \<in> set xs" "P u" "f b u = Inr u'"
    then show "P u'" using Cons.prems(3)[of b u u'] by simp
  qed
qed

lemma foldE_total:
  assumes "P s"
    and "\<And>a t. a \<in> set xs \<Longrightarrow> P t \<Longrightarrow> \<exists>t'. f a t = Inr t' \<and> P t'"
  shows "\<exists>s'. foldE f xs s = Inr s' \<and> P s'"
  using assms
proof (induction xs arbitrary: s)
  case Nil
  then show ?case by simp
next
  case (Cons a xs)
  from Cons.prems(2)[of a s] Cons.prems(1) obtain t where t: "f a s = Inr t" "P t" by auto
  have "\<exists>s'. foldE f xs t = Inr s' \<and> P s'"
  proof (rule Cons.IH[OF t(2)])
    fix b u assume "b \<in> set xs" "P u"
    then show "\<exists>t'. f b u = Inr t' \<and> P t'" using Cons.prems(2)[of b u] by simp
  qed
  then show ?case using t(1) by simp
qed

lemma box_at_Inr:
  "box_at ft el k = Inr b \<longleftrightarrow>
     el < length (tree_structure ft) \<and> 0 \<le> sint k
     \<and> nat (sint k) < length (tree_structure ft ! el)
     \<and> b = tree_structure ft ! el ! nat (sint k)"
  unfolding box_at_def by auto

lemma on_box_Inr:
  "on_box el k f ft = Inr ft' \<longleftrightarrow>
     (\<exists>b'. el < length (tree_structure ft) \<and> 0 \<le> sint k
        \<and> nat (sint k) < length (tree_structure ft ! el)
        \<and> f (tree_structure ft ! el ! nat (sint k)) = Inr b'
        \<and> ft' = ft\<lparr>tree_structure :=
                 (tree_structure ft)[el := (tree_structure ft ! el)[nat (sint k) := b']]\<rparr>)"
  unfolding on_box_def box_at_def by (auto split: sum.splits)

section \<open>The tree invariant\<close>

lemma tree_inv_numOps [simp]:
  "tree_inv (ft\<lparr>numOpsIndirect := n\<rparr>) = tree_inv ft"
  "tree_inv (ft\<lparr>numOpsDirect := n\<rparr>) = tree_inv ft"
  by (simp_all add: tree_inv_def)

lemma level_ok_update:
  assumes "level_ok el row" and "k < length row"
    and "box_level b' = box_level (row ! k)" and "box_index b' = box_index (row ! k)"
  shows "level_ok el (row[k := b'])"
  using assms unfolding level_ok_def box_ok_def
  by (simp add: nth_list_update)

lemma on_box_tree_inv:
  assumes "tree_inv ft" and "on_box el k f ft = Inr ft'"
    and "\<And>b b'. f b = Inr b' \<Longrightarrow> box_level b' = box_level b \<and> box_index b' = box_index b"
  shows "tree_inv ft'"
proof -
  from assms(2)[unfolded on_box_Inr] obtain b' where
    el: "el < length (tree_structure ft)" and k: "nat (sint k) < length (tree_structure ft ! el)"
    and f: "f (tree_structure ft ! el ! nat (sint k)) = Inr b'"
    and ft': "ft' = ft\<lparr>tree_structure :=
                 (tree_structure ft)[el := (tree_structure ft ! el)[nat (sint k) := b']]\<rparr>"
    by blast
  have lv: "\<forall>e<length (tree_structure ft). level_ok e (tree_structure ft ! e)"
    using assms(1) by (simp add: tree_inv_def)
  have "level_ok el ((tree_structure ft ! el)[nat (sint k) := b'])"
    using level_ok_update[OF lv[rule_format, OF el] k] assms(3)[OF f] by simp
  then have "\<forall>e<length (tree_structure ft).
      level_ok e ((tree_structure ft)[el := (tree_structure ft ! el)[nat (sint k) := b']] ! e)"
    using lv el by (auto simp add: nth_list_update)
  then show ?thesis
    using assms(1) unfolding ft' tree_inv_def by simp
qed

lemma on_box_fields:
  assumes "on_box el k f ft = Inr ft'"
  shows "numOfLevels ft' = numOfLevels ft \<and> fmm_x ft' = fmm_x ft \<and> fmm_y ft' = fmm_y ft
         \<and> potential ft' = potential ft \<and> numOpsIndirect ft' = numOpsIndirect ft
         \<and> numOpsDirect ft' = numOpsDirect ft"
proof -
  from assms[unfolded on_box_Inr] obtain b' where
    "ft' = ft\<lparr>tree_structure :=
                 (tree_structure ft)[el := (tree_structure ft ! el)[nat (sint k) := b']]\<rparr>"
    by blast
  then show ?thesis by simp
qed

lemma on_box_total:
  assumes "tree_inv ft" and "el < numOfLevels ft" and "0 \<le> sint k" and "sint k < 4 ^ el"
    and "\<And>b. \<exists>b'. f b = Inr b'"
  shows "\<exists>ft'. on_box el k f ft = Inr ft'"
proof -
  have el: "el < length (tree_structure ft)" using assms(1,2) by (simp add: tree_inv_def)
  then have "length (tree_structure ft ! el) = 4 ^ el"
    using assms(1) by (simp add: tree_inv_def level_ok_def)
  then have k: "nat (sint k) < length (tree_structure ft ! el)"
    using assms(3,4) by (simp add: nat_less_iff)
  from assms(5)[of "tree_structure ft ! el ! nat (sint k)"] obtain b'
    where "f (tree_structure ft ! el ! nat (sint k)) = Inr b'" by blast
  then show ?thesis unfolding on_box_Inr using el k assms(3) by blast
qed

lemma getBoxIndex_range:
  assumes "level \<le> 15"
  shows "0 \<le> sint (getBoxIndex q level) \<and> sint (getBoxIndex q level) < 4 ^ level"
  unfolding getBoxIndex_def by (rule interleave_range[OF assms])

section \<open>The constructor builds a well-shaped tree\<close>

lemma make_level_ok: "level_ok el (make_level pot el)"
  unfolding level_ok_def box_ok_def make_level_def
  by (simp add: setP_def setIndex_def setLevel_def)

lemma addX_keeps: "box_level (addX q b) = box_level b \<and> box_index (addX q b) = box_index b"
  by (simp add: addX_def)

lemma addY_keeps: "box_level (addY q b) = box_level b \<and> box_index (addY q b) = box_index b"
  by (simp add: addY_def)

lemma sort_step:
  assumes "tree_inv ft" and "same_setup ft0 ft"
  shows "\<exists>ft'. sortX q ft = Inr ft' \<and> tree_inv ft' \<and> same_setup ft0 ft'"
    and "\<exists>ft'. sortY q ft = Inr ft' \<and> tree_inv ft' \<and> same_setup ft0 ft'"
proof -
  have "1 \<le> numOfLevels ft \<and> numOfLevels ft \<le> 8"
    using assms(1) by (simp add: tree_inv_def)
  then have n: "numOfLevels ft - 1 < numOfLevels ft" "numOfLevels ft - 1 \<le> 15"
    by arith+
  note r = getBoxIndex_range[OF n(2), of q]
  from on_box_total[OF assms(1) n(1) r[THEN conjunct1] r[THEN conjunct2],
      of "\<lambda>b. Inr (addX q b)"]
  obtain ft' where x: "sortX q ft = Inr ft'" unfolding sortX_def by blast
  have "tree_inv ft'"
    using on_box_tree_inv[OF assms(1) x[unfolded sortX_def]] addX_keeps by blast
  moreover have "same_setup ft0 ft'"
    using on_box_fields[OF x[unfolded sortX_def]] assms(2) by (simp add: same_setup_def)
  ultimately show "\<exists>ft'. sortX q ft = Inr ft' \<and> tree_inv ft' \<and> same_setup ft0 ft'"
    using x by blast
  from on_box_total[OF assms(1) n(1) r[THEN conjunct1] r[THEN conjunct2],
      of "\<lambda>b. Inr (addY q b)"]
  obtain ft' where y: "sortY q ft = Inr ft'" unfolding sortY_def by blast
  have "tree_inv ft'"
    using on_box_tree_inv[OF assms(1) y[unfolded sortY_def]] addY_keeps by blast
  moreover have "same_setup ft0 ft'"
    using on_box_fields[OF y[unfolded sortY_def]] assms(2) by (simp add: same_setup_def)
  ultimately show "\<exists>ft'. sortY q ft = Inr ft' \<and> tree_inv ft' \<and> same_setup ft0 ft'"
    using y by blast
qed

lemma initStruct_total:
  assumes "1 \<le> numOfLevels ft" and "numOfLevels ft \<le> 8"
    and "length (tree_structure ft) = numOfLevels ft"
  shows "\<exists>ft'. initStruct ft = Inr ft' \<and> tree_inv ft' \<and> same_setup ft ft'"
proof -
  define ft1 where "ft1 = ft\<lparr>tree_structure :=
                   map (make_level (potential ft)) [0..<length (tree_structure ft)]\<rparr>"
  have inv1: "tree_inv ft1" using assms
    by (simp add: ft1_def tree_inv_def make_level_ok)
  have s1: "same_setup ft ft1" by (simp add: ft1_def same_setup_def)
  from foldE_total[of "\<lambda>t. tree_inv t \<and> same_setup ft t" ft1 "fmm_x ft1" sortX]
    sort_step(1) inv1 s1
  obtain ft2 where ft2: "foldE sortX (fmm_x ft1) ft1 = Inr ft2" "tree_inv ft2" "same_setup ft ft2"
    by blast
  from foldE_total[of "\<lambda>t. tree_inv t \<and> same_setup ft t" ft2 "fmm_y ft2" sortY]
    sort_step(2) ft2(2,3)
  obtain ft3 where ft3: "foldE sortY (fmm_y ft2) ft2 = Inr ft3" "tree_inv ft3" "same_setup ft ft3"
    by blast
  have "initStruct ft = Inr ft3"
    unfolding initStruct_def Let_def ft1_def[symmetric] using ft2(1) ft3(1) by simp
  then show ?thesis using ft3 by blast
qed

lemma FmmTree_init_total:
  assumes "1 \<le> level" and "level \<le> 8" and "length sources \<le> length targets"
  shows "\<exists>ft. FmmTree_init level sources targets pot = Inr ft \<and> tree_inv ft
           \<and> numOfLevels ft = nat level \<and> fmm_x ft = sources
           \<and> fmm_y ft = take (length sources) targets \<and> potential ft = pot"
proof -
  define ft0 where "ft0 = \<lparr>numOfLevels = nat level, currLevel = nat level - 1,
              fmm_x = sources, fmm_y = take (length sources) targets,
              potential = pot, tree_structure = replicate (nat level) [],
              numOpsIndirect = 0, numOpsDirect = 0\<rparr>"
  have "\<exists>ft'. initStruct ft0 = Inr ft' \<and> tree_inv ft' \<and> same_setup ft0 ft'"
    using assms(1,2) by (intro initStruct_total) (simp_all add: ft0_def)
  then obtain ft where ft: "initStruct ft0 = Inr ft" "tree_inv ft" "same_setup ft0 ft" by blast
  have "FmmTree_init level sources targets pot = Inr ft"
    unfolding FmmTree_init_def ft0_def[symmetric] using assms ft(1) by simp
  then show ?thesis using ft(2,3) by (simp add: same_setup_def ft0_def)
qed

lemma FmmTree_init_Inr:
  assumes "FmmTree_init level sources targets pot = Inr ft"
  shows "1 \<le> level \<and> level \<le> 8 \<and> length sources \<le> length targets \<and> tree_inv ft
           \<and> numOfLevels ft = nat level \<and> fmm_x ft = sources
           \<and> fmm_y ft = take (length sources) targets \<and> potential ft = pot"
proof -
  have c: "1 \<le> level \<and> level \<le> 8 \<and> length sources \<le> length targets"
    using assms unfolding FmmTree_init_def by (simp split: if_splits)
  with FmmTree_init_total[of level sources targets pot] assms show ?thesis by auto
qed

section \<open>Leaf addresses of points\<close>

lemma grid_of_unit: "int_of_double (floor_double (1 * 2 ^ level)) = 2 ^ level"
proof -
  have "floor_double (1 * 2 ^ level) = real_of_int (2 ^ level)"
    unfolding floor_double_def by simp
  then show ?thesis unfolding int_of_double_def by simp
qed

lemma grid_of_zero: "int_of_double (floor_double (0 * 2 ^ level)) = 0"
  unfolding floor_double_def int_of_double_def by simp

lemma take_bit_grid_of_unit: "take_bit level (2 ^ level :: cint) = take_bit level 0"
  by (rule bit_word_eqI) (simp add: bit_take_bit_iff bit_exp_iff)

lemma getBoxIndex_unit_re:
  "getBoxIndex \<lparr>coord = Complex 1 b\<rparr> level = getBoxIndex \<lparr>coord = Complex 0 b\<rparr> level"
proof -
  have "getBoxIndex \<lparr>coord = Complex 1 b\<rparr> level
      = interleave (2 ^ level) (int_of_double (floor_double (b * 2 ^ level))) level"
    unfolding getBoxIndex_def using grid_of_unit[of level] by simp
  also have "\<dots> = interleave (take_bit level 0)
       (take_bit level (int_of_double (floor_double (b * 2 ^ level)))) level"
    by (subst interleave_take_bit) (simp only: take_bit_grid_of_unit)
  also have "\<dots> = interleave 0 (int_of_double (floor_double (b * 2 ^ level))) level"
    by (rule interleave_take_bit[symmetric])
  also have "\<dots> = getBoxIndex \<lparr>coord = Complex 0 b\<rparr> level"
    unfolding getBoxIndex_def using grid_of_zero[of level] by simp
  finally show ?thesis .
qed

lemma getBoxIndex_unit_im:
  "getBoxIndex \<lparr>coord = Complex a 1\<rparr> level = getBoxIndex \<lparr>coord = Complex a 0\<rparr> level"
proof -
  have "getBoxIndex \<lparr>coord = Complex a 1\<rparr> level
      = interleave (int_of_double (floor_double (a * 2 ^ level))) (2 ^ level) level"
    unfolding getBoxIndex_def using grid_of_unit[of level] by simp
  also have "\<dots> = interleave (take_bit level (int_of_double (floor_double (a * 2 ^ level))))
       (take_bit level 0) level"
    by (subst interleave_take_bit) (simp only: take_bit_grid_of_unit)
  also have "\<dots> = interleave (int_of_double (floor_double (a * 2 ^ level))) 0 level"
    by (rule interleave_take_bit[symmetric])
  also have "\<dots> = getBoxIndex \<lparr>coord = Complex a 0\<rparr> level"
    unfolding getBoxIndex_def using grid_of_zero[of level] by simp
  finally show ?thesis .
qed

section \<open>Neighbours and the interaction list\<close>

lemma grid_bits:
  fixes v :: cint
  assumes "level \<le> 31"
  shows "(0 \<le> sint v \<and> real_of_int (sint v) < 2 ^ level) \<longleftrightarrow> (\<forall>k. bit v k \<longrightarrow> k < level)"
proof -
  have "real_of_int (sint v) < 2 ^ level \<longleftrightarrow> sint v < 2 ^ level"
    by (metis of_int_less_iff of_int_numeral of_int_power)
  then show ?thesis using addr_range_bits[OF assms, of v] by simp
qed

lemma interleave_inj:
  assumes "level \<le> 16"
    and "\<forall>k. bit x k \<longrightarrow> k < level" and "\<forall>k. bit y k \<longrightarrow> k < level"
    and "\<forall>k. bit x' k \<longrightarrow> k < level" and "\<forall>k. bit y' k \<longrightarrow> k < level"
    and "interleave x y level = interleave x' y' level"
  shows "x = x' \<and> y = y'"
proof
  show "x = x'"
  proof (rule bit_word_eqI)
    fix k assume "k < LENGTH(32)"
    show "bit x k \<longleftrightarrow> bit x' k"
    proof (cases "k < level")
      case True
      then have "2 * k + 1 < 2 * level" "2 * k + 1 < 32" using assms(1) by simp_all
      moreover have "(2 * k + 1) div 2 = k" "odd (2 * k + 1)" by simp_all
      ultimately have "bit (interleave x y level) (2 * k + 1) \<longleftrightarrow> bit x k"
        "bit (interleave x' y' level) (2 * k + 1) \<longleftrightarrow> bit x' k"
        unfolding bit_interleave by simp_all
      then show ?thesis using assms(6) by simp
    next
      case False
      then show ?thesis using assms(2,4) by blast
    qed
  qed
  show "y = y'"
  proof (rule bit_word_eqI)
    fix k assume "k < LENGTH(32)"
    show "bit y k \<longleftrightarrow> bit y' k"
    proof (cases "k < level")
      case True
      then have "2 * k < 2 * level" "2 * k < 32" using assms(1) by simp_all
      moreover have "(2 * k) div 2 = k" "even (2 * k)" by simp_all
      ultimately have "bit (interleave x y level) (2 * k) \<longleftrightarrow> bit y k"
        "bit (interleave x' y' level) (2 * k) \<longleftrightarrow> bit y' k"
        unfolding bit_interleave by simp_all
      then show ?thesis using assms(6) by simp
    next
      case False
      then show ?thesis using assms(3,5) by blast
    qed
  qed
qed

lemma neighbor_loop_mem:
  assumes "m \<in> set (neighbor_loop x y level)"
  shows "\<exists>i j. (i \<noteq> 0 \<or> j \<noteq> 0)
          \<and> 0 \<le> sint (x + i) \<and> real_of_int (sint (x + i)) < 2 ^ level
          \<and> 0 \<le> sint (y + j) \<and> real_of_int (sint (y + j)) < 2 ^ level
          \<and> m = interleave (x + i) (y + j) level"
  using assms unfolding neighbor_loop_def set_concat set_map
  by (auto split: if_splits)

lemma neighbor_loop_other:
  assumes "level \<le> 15" and "\<forall>k. bit x k \<longrightarrow> k < level" and "\<forall>k. bit y k \<longrightarrow> k < level"
    and "m \<in> set (neighbor_loop x y level)"
  shows "m \<noteq> interleave x y level \<and> 0 \<le> sint m \<and> sint m < 4 ^ level"
proof -
  from neighbor_loop_mem[OF assms(4)] obtain i j where
    ij: "i \<noteq> 0 \<or> j \<noteq> 0"
    and gx: "0 \<le> sint (x + i) \<and> real_of_int (sint (x + i)) < 2 ^ level"
    and gy: "0 \<le> sint (y + j) \<and> real_of_int (sint (y + j)) < 2 ^ level"
    and m: "m = interleave (x + i) (y + j) level" by blast
  have l: "level \<le> 31" "level \<le> 16" using assms(1) by simp_all
  have bx: "\<forall>k. bit (x + i) k \<longrightarrow> k < level" using gx grid_bits[OF l(1)] by blast
  have by': "\<forall>k. bit (y + j) k \<longrightarrow> k < level" using gy grid_bits[OF l(1)] by blast
  have "m \<noteq> interleave x y level"
  proof
    assume "m = interleave x y level"
    then have "interleave (x + i) (y + j) level = interleave x y level" using m by simp
    from interleave_inj[OF l(2) bx by' assms(2,3) this] have "x + i = x" "y + j = y" by simp_all
    then have "i = 0" "j = 0" by simp_all
    then show False using ij by simp
  qed
  then show ?thesis using interleave_range[OF assms(1), of "x + i" "y + j"] m by simp
qed

lemma parent_range:
  fixes n :: cint
  assumes "0 \<le> sint n" and "sint n < 4 ^ Suc L"
  shows "0 \<le> sint (signed_drop_bit 2 n) \<and> sint (signed_drop_bit 2 n) < 4 ^ L"
proof -
  have "sint (signed_drop_bit 2 n) = sint n div 4"
    by (simp add: sint_signed_drop_bit_eq drop_bit_eq_div)
  moreover have "0 \<le> sint n div 4" using assms(1) by simp
  moreover have "sint n div 4 < 4 ^ L" using assms(2) by (simp add: div_less_iff_less_mult)
  ultimately show ?thesis by simp
qed

lemma uninterleave_ints_grid:
  "\<forall>k. bit (fst (uninterleave_ints n L)) k \<longrightarrow> k < L"
  "\<forall>k. bit (snd (uninterleave_ints n L)) k \<longrightarrow> k < L"
  by (simp_all add: bit_uninterleave_ints)

section \<open>The interaction list excludes the box and its neighbours\<close>

lemma getParentsNeighborsIndex_eq:
  "getParentsNeighborsIndex b =
     neighbor_loop (fst (uninterleave_ints (getParentIndex b) (box_level b - 1)))
       (snd (uninterleave_ints (getParentIndex b) (box_level b - 1))) (box_level b - 1)"
  unfolding getParentsNeighborsIndex_def Let_def uninterleave_coords ..

lemma getNeighborsIndex_eq:
  "getNeighborsIndex b =
     neighbor_loop (fst (uninterleave_ints (box_index b) (box_level b)))
       (snd (uninterleave_ints (box_index b) (box_level b))) (box_level b)"
  unfolding getNeighborsIndex_def Let_def uninterleave_coords ..

lemma parents_neighbor_other:
  assumes "1 \<le> box_level b" and "box_level b \<le> 15"
    and "0 \<le> sint (box_index b)" and "sint (box_index b) < 4 ^ box_level b"
    and "Q \<in> set (getParentsNeighborsIndex b)"
  shows "Q \<noteq> getParentIndex b \<and> 0 \<le> sint Q \<and> sint Q < 4 ^ (box_level b - 1)"
proof -
  define L where "L = box_level b - 1"
  have lv: "box_level b = Suc L" "L \<le> 15" using assms(1,2) by (simp_all add: L_def)
  have pr: "0 \<le> sint (getParentIndex b)" "sint (getParentIndex b) < 4 ^ L"
    using parent_range[of "box_index b" L] assms(3,4) lv(1)
    by (simp_all add: getParentIndex_def)
  note rt = interleave_uninterleave_ints[OF lv(2) pr]
  from neighbor_loop_other[OF lv(2) uninterleave_ints_grid[of "getParentIndex b" L]]
    assms(5)[unfolded getParentsNeighborsIndex_eq L_def[symmetric]]
  show ?thesis unfolding rt L_def[symmetric] by blast
qed

lemma neighbors_other:
  assumes "box_level b \<le> 15"
    and "0 \<le> sint (box_index b)" and "sint (box_index b) < 4 ^ box_level b"
    and "m \<in> set (getNeighborsIndex b)"
  shows "m \<noteq> box_index b \<and> 0 \<le> sint m \<and> sint m < 4 ^ box_level b"
proof -
  note rt = interleave_uninterleave_ints[OF assms(1,2,3)]
  from neighbor_loop_other[OF assms(1) uninterleave_ints_grid[of "box_index b" "box_level b"]]
    assms(4)[unfolded getNeighborsIndex_eq]
  show ?thesis unfolding rt by blast
qed

lemma E4_mem:
  assumes "m \<in> set (getNeighborsE4Index b)"
  shows "m \<notin> set (getNeighborsIndex b)
       \<and> (\<exists>Q\<in>set (getParentsNeighborsIndex b). \<exists>i\<in>{0, 1, 2, 3}. m = push_bit 2 Q + i)"
proof -
  define ch where "ch = (\<lambda>Q :: cint. map (\<lambda>i. push_bit 2 Q + i) [0, 1, 2, 3])"
  have e: "getNeighborsE4Index b =
      filter (\<lambda>m. \<not> list_ex (\<lambda>nb. m = nb) (getNeighborsIndex b))
        (concat (map ch (getParentsNeighborsIndex b)))"
    unfolding getNeighborsE4Index_def Let_def getChildrenIndexOfBox_def ch_def ..
  from assms[unfolded e] have a: "\<not> list_ex (\<lambda>nb. m = nb) (getNeighborsIndex b)"
    and c: "m \<in> set (concat (map ch (getParentsNeighborsIndex b)))"
    by simp_all
  from a have "m \<notin> set (getNeighborsIndex b)"
    unfolding list_ex_iff by blast
  moreover from c obtain Q where Q: "Q \<in> set (getParentsNeighborsIndex b)" "m \<in> set (ch Q)"
    unfolding set_concat set_map by blast
  from Q(2) have "\<exists>i\<in>{0, 1, 2, 3}. m = push_bit 2 Q + i"
    unfolding ch_def by simp
  ultimately show ?thesis using Q(1) by blast
qed

lemma E4_other:
  assumes "1 \<le> box_level b" and "box_level b \<le> 15"
    and "0 \<le> sint (box_index b)" and "sint (box_index b) < 4 ^ box_level b"
    and "m \<in> set (getNeighborsE4Index b)"
  shows "m \<noteq> box_index b \<and> m \<notin> set (getNeighborsIndex b)
       \<and> 0 \<le> sint m \<and> sint m < 4 ^ box_level b"
proof -
  define L where "L = box_level b - 1"
  have lv: "box_level b = Suc L" "L \<le> 14" using assms(1,2) by (simp_all add: L_def)
  from E4_mem[OF assms(5)] obtain Q i where
    nn: "m \<notin> set (getNeighborsIndex b)" and Q: "Q \<in> set (getParentsNeighborsIndex b)"
    and i: "i \<in> {0, 1, 2, 3 :: cint}" and m: "m = push_bit 2 Q + i" by blast
  from parents_neighbor_other[OF assms(1-4) Q]
  have Qr: "Q \<noteq> getParentIndex b" "0 \<le> sint Q" "sint Q < 4 ^ L"
    by (simp_all add: L_def)
  from sint_small[OF i] have ir: "0 \<le> sint i" "sint i < 4" by simp_all
  have "(4::int) ^ L \<le> 4 ^ 14" using lv(2) by (intro power_increasing) simp_all
  then have Q29: "sint Q < 2 ^ 29" using Qr(3) by simp
  have pm: "signed_drop_bit 2 m = Q" unfolding m by (rule parent_of_child[OF Qr(2) Q29 ir])
  have "m \<noteq> box_index b"
  proof
    assume "m = box_index b"
    then have "getParentIndex b = Q" using pm by (simp add: getParentIndex_def)
    then show False using Qr(1) by simp
  qed
  moreover have "0 \<le> sint m \<and> sint m < 4 ^ Suc L"
    unfolding m by (rule child_range[OF lv(2) Qr(2,3) ir])
  ultimately show ?thesis using nn lv(1) by simp
qed

lemma uninterleave_inj:
  assumes "L \<le> 15" and "0 \<le> sint n" and "sint n < 4 ^ L"
    and "0 \<le> sint m" and "sint m < 4 ^ L"
    and "uninterleave n L = uninterleave m L"
  shows "n = m"
proof -
  have "int_of_double (Re (uninterleave n L)) = int_of_double (Re (uninterleave m L))"
    "int_of_double (Im (uninterleave n L)) = int_of_double (Im (uninterleave m L))"
    by (simp_all only: assms(6))
  then have e: "fst (uninterleave_ints n L) = fst (uninterleave_ints m L)"
    "snd (uninterleave_ints n L) = snd (uninterleave_ints m L)"
    unfolding uninterleave_coords .
  have "n = interleave (fst (uninterleave_ints n L)) (snd (uninterleave_ints n L)) L"
    by (rule interleave_uninterleave_ints[OF assms(1,2,3), symmetric])
  also have "\<dots> = interleave (fst (uninterleave_ints m L)) (snd (uninterleave_ints m L)) L"
    by (simp only: e)
  also have "\<dots> = m"
    by (rule interleave_uninterleave_ints[OF assms(1,4,5)])
  finally show ?thesis .
qed

lemma getCenter_inj:
  assumes "box_level b = box_level b'" and "box_level b \<le> 15"
    and "0 \<le> sint (box_index b)" and "sint (box_index b) < 4 ^ box_level b"
    and "0 \<le> sint (box_index b')" and "sint (box_index b') < 4 ^ box_level b"
    and "coord (getCenter b) - coord (getCenter b') = 0"
  shows "box_index b = box_index b'"
proof -
  have s: "complex_of_real (getSize b) \<noteq> 0" by (simp add: getSize_def)
  have "getSize b' = getSize b" using assms(1) by (simp add: getSize_def)
  then have "(uninterleave (box_index b) (box_level b) + Complex 0.5 0.5)
        * complex_of_real (getSize b)
      = (uninterleave (box_index b') (box_level b) + Complex 0.5 0.5)
        * complex_of_real (getSize b)"
    using assms(7,1) by (simp add: getCenter_def)
  then have "uninterleave (box_index b) (box_level b) = uninterleave (box_index b') (box_level b)"
    using s by simp
  then show ?thesis by (rule uninterleave_inj[OF assms(2-6)])
qed

section \<open>Accumulating into coefficient arrays\<close>

lemma foldE_Inl:
  assumes "foldE f xs s = Inl e" and "P s"
    and "\<And>a t t'. a \<in> set xs \<Longrightarrow> P t \<Longrightarrow> f a t = Inr t' \<Longrightarrow> P t'"
  shows "\<exists>a t. a \<in> set xs \<and> P t \<and> f a t = Inl e"
  using assms
proof (induction xs arbitrary: s)
  case Nil
  then show ?case by simp
next
  case (Cons a xs)
  show ?case
  proof (cases "f a s")
    case (Inl e')
    then have "f a s = Inl e" using Cons.prems(1) by simp
    then show ?thesis using Cons.prems(2) by (intro exI[of _ a] exI[of _ s]) simp
  next
    case (Inr t)
    then have r: "foldE f xs t = Inl e" using Cons.prems(1) by simp
    have Pt: "P t" using Cons.prems(3)[of a s t] Inr Cons.prems(2) by simp
    have "\<exists>a t. a \<in> set xs \<and> P t \<and> f a t = Inl e"
    proof (rule Cons.IH[OF r Pt])
      fix b u u' assume "b \<in> set xs" "P u" "f b u = Inr u'"
      then show "P u'" using Cons.prems(3)[of b u u'] by simp
    qed
    then show ?thesis by auto
  qed
qed

lemma add_at_Inr: "add_at inc i v = Inr v' \<Longrightarrow> length v' = length v"
  unfolding add_at_def by (auto split: if_splits)

lemma add_at_Inl: "add_at inc i v = Inl e \<Longrightarrow> e = OutOfBounds"
  unfolding add_at_def by (auto split: if_splits)

lemma add_loop_length:
  assumes "foldE (add_at inc) xs v = Inr v'"
  shows "length v' = length v"
  by (rule foldE_Inr_induct[OF assms, of "\<lambda>w. length w = length v"])
    (simp_all add: add_at_Inr)

lemma add_loop_Inl:
  assumes "foldE (add_at inc) xs v = Inl e"
  shows "e = OutOfBounds"
  using foldE_Inl[OF assms, of "\<lambda>_. True"] add_at_Inl by blast

lemma addToC_Inr:
  assumes "addToC inc b = Inr b'"
  shows "length (box_c b') = length (box_c b) \<and> b' = b\<lparr>box_c := box_c b'\<rparr>"
proof -
  from assms obtain v where v: "foldE (add_at inc) [0..<length (box_c b)] (box_c b) = Inr v"
    and b': "b' = b\<lparr>box_c := v\<rparr>"
    unfolding addToC_def by (auto split: sum.splits)
  from add_loop_length[OF v] b' show ?thesis by simp
qed

lemma addToD_Inr:
  assumes "addToD inc b = Inr b'"
  shows "length (box_d b') = length (box_d b) \<and> b' = b\<lparr>box_d := box_d b'\<rparr>"
proof -
  from assms obtain v where v: "foldE (add_at inc) [0..<length (box_d b)] (box_d b) = Inr v"
    and b': "b' = b\<lparr>box_d := v\<rparr>"
    unfolding addToD_def by (auto split: sum.splits)
  from add_loop_length[OF v] b' show ?thesis by simp
qed

lemma addToDtilde_Inr:
  assumes "addToDtilde inc b = Inr b'"
  shows "length (box_dtilde b') = length (box_dtilde b) \<and> b' = b\<lparr>box_dtilde := box_dtilde b'\<rparr>"
proof -
  from assms obtain v
    where v: "foldE (add_at inc) [0..<length (box_dtilde b)] (box_dtilde b) = Inr v"
    and b': "b' = b\<lparr>box_dtilde := v\<rparr>"
    unfolding addToDtilde_def by (auto split: sum.splits)
  from add_loop_length[OF v] b' show ?thesis by simp
qed

lemma addTo_Inl:
  "addToC inc b = Inl e \<Longrightarrow> e = OutOfBounds"
  "addToD inc b = Inl e \<Longrightarrow> e = OutOfBounds"
  "addToDtilde inc b = Inl e \<Longrightarrow> e = OutOfBounds"
  unfolding addToC_def addToD_def addToDtilde_def
  by (auto split: sum.splits dest: add_loop_Inl)

lemma addTo_keeps:
  "addToC inc b = Inr b' \<Longrightarrow> box_level b' = box_level b \<and> box_index b' = box_index b"
  "addToD inc b = Inr b' \<Longrightarrow> box_level b' = box_level b \<and> box_index b' = box_index b"
  "addToDtilde inc b = Inr b' \<Longrightarrow> box_level b' = box_level b \<and> box_index b' = box_index b"
proof -
  assume "addToC inc b = Inr b'"
  from addToC_Inr[OF this] have "b' = b\<lparr>box_c := box_c b'\<rparr>" by blast
  then have "box_level b' = box_level (b\<lparr>box_c := box_c b'\<rparr>)"
    "box_index b' = box_index (b\<lparr>box_c := box_c b'\<rparr>)" by simp_all
  then show "box_level b' = box_level b \<and> box_index b' = box_index b" by simp
next
  assume "addToD inc b = Inr b'"
  from addToD_Inr[OF this] have "b' = b\<lparr>box_d := box_d b'\<rparr>" by blast
  then have "box_level b' = box_level (b\<lparr>box_d := box_d b'\<rparr>)"
    "box_index b' = box_index (b\<lparr>box_d := box_d b'\<rparr>)" by simp_all
  then show "box_level b' = box_level b \<and> box_index b' = box_index b" by simp
next
  assume "addToDtilde inc b = Inr b'"
  from addToDtilde_Inr[OF this] have "b' = b\<lparr>box_dtilde := box_dtilde b'\<rparr>" by blast
  then have "box_level b' = box_level (b\<lparr>box_dtilde := box_dtilde b'\<rparr>)"
    "box_index b' = box_index (b\<lparr>box_dtilde := box_dtilde b'\<rparr>)" by simp_all
  then show "box_level b' = box_level b \<and> box_index b' = box_index b" by simp
qed

lemma box_at_Inl: "box_at ft el k = Inl e \<Longrightarrow> e = OutOfBounds"
  unfolding box_at_def by (auto split: if_splits)

lemma on_box_Inl:
  assumes "on_box el k f ft = Inl e"
  shows "e = OutOfBounds \<or> (\<exists>b. f b = Inl e)"
  using assms unfolding on_box_def
  by (auto split: sum.splits dest: box_at_Inl)

section \<open>downwardPass1 never translates by zero\<close>

lemma tree_box:
  assumes "tree_inv ft" and "box_at ft el m = Inr b"
  shows "box_level b = el \<and> box_index b = m \<and> el < numOfLevels ft \<and> el \<le> 7
         \<and> 0 \<le> sint m \<and> sint m < 4 ^ el"
proof -
  from assms(2)[unfolded box_at_Inr] have
    el: "el < length (tree_structure ft)" and m0: "0 \<le> sint m"
    and m1: "nat (sint m) < length (tree_structure ft ! el)"
    and b: "b = tree_structure ft ! el ! nat (sint m)" by simp_all
  have n: "length (tree_structure ft) = numOfLevels ft" "numOfLevels ft \<le> 8"
    using assms(1) by (simp_all add: tree_inv_def)
  have ok: "level_ok el (tree_structure ft ! el)"
    using assms(1) el by (simp add: tree_inv_def)
  then have len: "length (tree_structure ft ! el) = 4 ^ el" by (simp add: level_ok_def)
  from ok m1 have "box_ok el (nat (sint m)) b" unfolding level_ok_def b by blast
  then have "box_level b = el" "box_index b = of_nat (nat (sint m))"
    by (simp_all add: box_ok_def)
  moreover have "(of_nat (nat (sint m)) :: cint) = m" using m0 by simp
  moreover have "sint m < 4 ^ el" using m1 m0 len by (simp add: nat_less_iff)
  ultimately show ?thesis using el n m0 by simp
qed

lemma getSR_NotFinite:
  "getSR pot from_c to_c sCoeff = Inl NotFinite \<Longrightarrow> to_c - from_c = 0"
  unfolding getSR_def Let_def by (simp split: if_splits)

lemma interact_finite:
  assumes "tree_inv ft" and "1 \<le> el"
    and "box_level b0 = el" and "box_index b0 = of_nat k"
    and "m \<in> set (getNeighborsE4Index b0)"
  shows "interact el k m ft \<noteq> Inl NotFinite"
proof
  assume f: "interact el k m ft = Inl NotFinite"
  show False
  proof (cases "box_at ft el m")
    case (Inl e)
    then show False using f box_at_Inl[OF Inl] by (simp add: interact_def)
  next
    case nb: (Inr nb)
    show False
    proof (cases "box_at ft el (of_nat k)")
      case (Inl e)
      then show False using f nb box_at_Inl[OF Inl] by (simp add: interact_def)
    next
      case tb: (Inr thisBox)
      note Tn = tree_box[OF assms(1) nb]
      note Tb = tree_box[OF assms(1) tb]
      have b0: "1 \<le> box_level b0" "box_level b0 \<le> 15" "0 \<le> sint (box_index b0)"
        "sint (box_index b0) < 4 ^ box_level b0"
        using Tb assms(2,3,4) by simp_all
      from E4_other[OF b0 assms(5)] have ne: "m \<noteq> of_nat k" using assms(4) by simp
      show False
      proof (cases "getSR (potential ft) (coord (getCenter nb)) (coord (getCenter thisBox))
                      (box_c nb)")
        case (Inl e)
        then have "e = NotFinite" using f nb tb by (simp add: interact_def)
        from getSR_NotFinite[OF Inl[unfolded this]]
        have z: "coord (getCenter thisBox) - coord (getCenter nb) = 0" .
        have "box_index thisBox = box_index nb"
          by (rule getCenter_inj[OF _ _ _ _ _ _ z]) (use Tb Tn in simp_all)
        then show False using ne Tb Tn by simp
      next
        case (Inr newCoeffs)
        then have "on_box el (of_nat k) (addToDtilde newCoeffs)
            (ft\<lparr>numOpsIndirect := numOpsIndirect ft + 2\<rparr>) = Inl NotFinite"
          using f nb tb by (simp add: interact_def)
        from on_box_Inl[OF this] show False using addTo_Inl(3) by blast
      qed
    qed
  qed
qed

lemma interact_keeps:
  assumes "tree_inv ft" and "interact el k m ft = Inr ft'"
  shows "tree_inv ft'"
proof -
  from assms(2) obtain newCoeffs where
    "on_box el (of_nat k) (addToDtilde newCoeffs)
       (ft\<lparr>numOpsIndirect := numOpsIndirect ft + 2\<rparr>) = Inr ft'"
    unfolding interact_def by (auto split: sum.splits)
  from on_box_tree_inv[OF _ this] assms(1) addTo_keeps(3) show ?thesis by simp
qed

lemma interact_box_finite:
  assumes "tree_inv ft" and "1 \<le> el"
  shows "interact_box el k ft \<noteq> Inl NotFinite"
proof
  assume f: "interact_box el k ft = Inl NotFinite"
  show False
  proof (cases "box_at ft el (of_nat k)")
    case (Inl e)
    then show False using f box_at_Inl[OF Inl] by (simp add: interact_box_def)
  next
    case (Inr thisBox)
    then have "foldE (interact el k) (getNeighborsE4Index thisBox) ft = Inl NotFinite"
      using f by (simp add: interact_box_def)
    from foldE_Inl[OF this, of tree_inv] assms(1) interact_keeps
    obtain m t where "m \<in> set (getNeighborsE4Index thisBox)" "tree_inv t"
      "interact el k m t = Inl NotFinite" by blast
    moreover have "box_level thisBox = el" "box_index thisBox = of_nat k"
      using tree_box[OF assms(1) Inr] by simp_all
    ultimately show False using interact_finite[OF _ assms(2)] by blast
  qed
qed

lemma interact_box_keeps:
  assumes "tree_inv ft" and "interact_box el k ft = Inr ft'"
  shows "tree_inv ft'"
proof -
  from assms(2) obtain thisBox where
    "foldE (interact el k) (getNeighborsE4Index thisBox) ft = Inr ft'"
    unfolding interact_box_def by (auto split: sum.splits)
  from foldE_Inr_induct[OF this, of tree_inv] assms(1) interact_keeps show ?thesis by blast
qed

lemma interact_level_finite:
  assumes "tree_inv ft" and "1 \<le> el"
  shows "interact_level el ft \<noteq> Inl NotFinite"
proof
  assume f: "interact_level el ft = Inl NotFinite"
  then have "foldE (interact_box el) [0..<length (tree_structure ft ! el)] ft = Inl NotFinite"
    unfolding interact_level_def by (simp split: if_splits)
  from foldE_Inl[OF this, of tree_inv] assms(1) interact_box_keeps
  obtain k t where "tree_inv t" "interact_box el k t = Inl NotFinite" by blast
  then show False using interact_box_finite[OF _ assms(2)] by blast
qed

lemma interact_level_keeps:
  assumes "tree_inv ft" and "interact_level el ft = Inr ft'"
  shows "tree_inv ft'"
proof -
  from assms(2)
  have "foldE (interact_box el) [0..<length (tree_structure ft ! el)] ft = Inr ft'"
    unfolding interact_level_def by (simp split: if_splits)
  from foldE_Inr_induct[OF this, of tree_inv] assms(1) interact_box_keeps show ?thesis by blast
qed

lemma downwardPass1_finite:
  assumes "tree_inv ft"
  shows "downwardPass1 ft \<noteq> Inl NotFinite"
proof
  assume "downwardPass1 ft = Inl NotFinite"
  then have "foldE interact_level [2..<numOfLevels ft] ft = Inl NotFinite"
    by (simp add: downwardPass1_def)
  from foldE_Inl[OF this, of tree_inv] assms interact_level_keeps
  obtain el t where "el \<in> set [2..<numOfLevels ft]" "tree_inv t"
    "interact_level el t = Inl NotFinite" by blast
  then show False using interact_level_finite[of t el] by simp
qed

lemma downwardPass1_keeps:
  assumes "tree_inv ft" and "downwardPass1 ft = Inr ft'"
  shows "tree_inv ft'"
  using foldE_Inr_induct[OF assms(2)[unfolded downwardPass1_def], of tree_inv]
    assms(1) interact_level_keeps by blast

section \<open>Facts about the box constructors\<close>

lemma zero_coefficients_keeps:
  "box_level (fold zero_coefficients xs b) = box_level b
   \<and> box_index (fold zero_coefficients xs b) = box_index b
   \<and> box_p (fold zero_coefficients xs b) = box_p b
   \<and> length (box_c (fold zero_coefficients xs b)) = length (box_c b)
   \<and> length (box_dtilde (fold zero_coefficients xs b)) = length (box_dtilde b)
   \<and> length (box_d (fold zero_coefficients xs b)) = length (box_d b)"
  by (induction xs arbitrary: b) (simp_all add: zero_coefficients_def)

lemma Box_default_fields:
  "box_level Box_default = 3" "box_index Box_default = 0" "box_p Box_default = 12"
  "length (box_c Box_default) = 13" "length (box_dtilde Box_default) = 13"
  "length (box_d Box_default) = 13"
  unfolding Box_default_def by (simp_all add: zero_coefficients_keeps)

lemma E4_example: "getNeighborsE4Index (setIndex 2 Box_default) = [4, 5, 6, 7, 10, 11, 12, 13, 14, 15]"
  unfolding getNeighborsE4Index_def Let_def getParentsNeighborsIndex_eq getNeighborsIndex_eq
    getParentIndex_def setIndex_def
  apply (simp add: Box_default_fields)
  apply code_simp
  done

lemma Box_init_lengths:
  assumes "Box_init level index p = Inr b"
  shows "length (box_c b) = nat (p + 1) \<and> length (box_dtilde b) = nat (p + 1)
         \<and> length (box_d b) = nat (p + 1)"
proof -
  from assms have "b = fold zero_coefficients [0..<nat p]
             \<lparr>box_level = level, box_index = index, box_p = p, box_empty = True,
              box_c = replicate (nat (p + 1)) 0,
              box_dtilde = replicate (nat (p + 1)) 0,
              box_d = replicate (nat (p + 1)) 0,
              box_x = [], box_y = []\<rparr>"
    unfolding Box_init_def by (simp split: if_splits)
  then show ?thesis by (simp add: zero_coefficients_keeps)
qed

lemma call_lengths:
  assumes "call c b = Inr b'"
  shows "length (box_c b') = length (box_c b) \<and> length (box_dtilde b') = length (box_dtilde b)
         \<and> length (box_d b') = length (box_d b)"
proof (cases c)
  case (AddToC inc)
  with assms have "addToC inc b = Inr b'" by simp
  from addToC_Inr[OF this] have l: "length (box_c b') = length (box_c b)"
    and e: "b' = b\<lparr>box_c := box_c b'\<rparr>" by blast+
  have "box_dtilde b' = box_dtilde (b\<lparr>box_c := box_c b'\<rparr>)"
    "box_d b' = box_d (b\<lparr>box_c := box_c b'\<rparr>)" using e by simp_all
  then show ?thesis using l by simp
next
  case (AddToD inc)
  with assms have "addToD inc b = Inr b'" by simp
  from addToD_Inr[OF this] have l: "length (box_d b') = length (box_d b)"
    and e: "b' = b\<lparr>box_d := box_d b'\<rparr>" by blast+
  have "box_dtilde b' = box_dtilde (b\<lparr>box_d := box_d b'\<rparr>)"
    "box_c b' = box_c (b\<lparr>box_d := box_d b'\<rparr>)" using e by simp_all
  then show ?thesis using l by simp
next
  case (AddToDtilde inc)
  with assms have "addToDtilde inc b = Inr b'" by simp
  from addToDtilde_Inr[OF this] have l: "length (box_dtilde b') = length (box_dtilde b)"
    and e: "b' = b\<lparr>box_dtilde := box_dtilde b'\<rparr>" by blast+
  have "box_c b' = box_c (b\<lparr>box_dtilde := box_dtilde b'\<rparr>)"
    "box_d b' = box_d (b\<lparr>box_dtilde := box_dtilde b'\<rparr>)" using e by simp_all
  then show ?thesis using l by simp
qed (use assms in \<open>auto simp add: setLevel_def setIndex_def setP_def addX_def addY_def\<close>)

lemma calls_lengths:
  assumes "foldE call cs b = Inr b'"
  shows "length (box_c b') = length (box_c b) \<and> length (box_dtilde b') = length (box_dtilde b)
         \<and> length (box_d b') = length (box_d b)"
proof (rule foldE_Inr_induct[OF assms])
  show "length (box_c b) = length (box_c b) \<and> length (box_dtilde b) = length (box_dtilde b)
         \<and> length (box_d b) = length (box_d b)" by simp
next
  fix a t t'
  assume "length (box_c t) = length (box_c b) \<and> length (box_dtilde t) = length (box_dtilde b)
         \<and> length (box_d t) = length (box_d b)" and "call a t = Inr t'"
  then show "length (box_c t') = length (box_c b) \<and> length (box_dtilde t') = length (box_dtilde b)
         \<and> length (box_d t') = length (box_d b)"
    using call_lengths[of a t t'] by simp
qed

section \<open>When an accumulation stays in range\<close>

lemma foldE_Inr_steps:
  assumes "foldE f xs s = Inr s'" and "a \<in> set xs"
  shows "\<exists>t t'. f a t = Inr t'"
  using assms
proof (induction xs arbitrary: s)
  case Nil
  then show ?case by simp
next
  case (Cons x xs)
  from Cons.prems(1) obtain t where t: "f x s = Inr t" "foldE f xs t = Inr s'"
    by (simp split: sum.splits)
  show ?case
  proof (cases "a = x")
    case True
    then show ?thesis using t(1) by blast
  next
    case False
    then have "a \<in> set xs" using Cons.prems(2) by simp
    from Cons.IH[OF t(2) this] show ?thesis .
  qed
qed

lemma add_loop_total:
  assumes "length v \<le> length inc" and "n \<le> length v"
  shows "\<exists>v'. foldE (add_at inc) [0..<n] v = Inr v'"
proof -
  have "\<exists>v'. foldE (add_at inc) [0..<n] v = Inr v' \<and> length v' = length v"
  proof (rule foldE_total[of "\<lambda>t. length t = length v"])
    show "length v = length v" ..
  next
    fix a and t :: "complex list" assume "a \<in> set [0..<n]" "length t = length v"
    then have "a < length inc \<and> a < length t" using assms by simp
    then show "\<exists>t'. add_at inc a t = Inr t' \<and> length t' = length v"
      using \<open>length t = length v\<close> by (simp add: add_at_def)
  qed
  then show ?thesis by blast
qed

lemma add_loop_needs:
  assumes "foldE (add_at inc) [0..<n] v = Inr v'"
  shows "n \<le> length inc"
proof (rule ccontr)
  assume "\<not> n \<le> length inc"
  then have "length inc \<in> set [0..<n]" by simp
  from foldE_Inr_steps[OF assms this] obtain t t' where "add_at inc (length inc) t = Inr t'"
    by blast
  then show False by (simp add: add_at_def)
qed

lemma addToC_succeeds_iff:
  "(\<exists>b'. addToC inc b = Inr b') \<longleftrightarrow> length (box_c b) \<le> length inc"
proof
  assume "\<exists>b'. addToC inc b = Inr b'"
  then obtain v where "foldE (add_at inc) [0..<length (box_c b)] (box_c b) = Inr v"
    unfolding addToC_def by (auto split: sum.splits)
  then show "length (box_c b) \<le> length inc" by (rule add_loop_needs)
next
  assume "length (box_c b) \<le> length inc"
  from add_loop_total[OF this le_refl] obtain v
    where "foldE (add_at inc) [0..<length (box_c b)] (box_c b) = Inr v" by blast
  then show "\<exists>b'. addToC inc b = Inr b'" by (simp add: addToC_def)
qed

lemma addToC_fails_iff:
  "addToC inc b = Inl OutOfBounds \<longleftrightarrow> length inc < length (box_c b)"
proof -
  have "addToC inc b = Inl OutOfBounds \<longleftrightarrow> \<not> (\<exists>b'. addToC inc b = Inr b')"
  proof (cases "addToC inc b")
    case (Inl e)
    then show ?thesis using addTo_Inl(1)[OF Inl] by simp
  next
    case (Inr b')
    then show ?thesis by simp
  qed
  then show ?thesis unfolding addToC_succeeds_iff by (simp add: not_le)
qed

section \<open>Loops that fill a vector\<close>

lemma fold_update_length:
  "length (fold (\<lambda>i a. a[i := g i]) xs a0) = length a0"
  by (induction xs arbitrary: a0) simp_all

lemma fold_update_nth:
  assumes "k < length a0"
  shows "fold (\<lambda>i a. a[i := g i]) [lo..<hi] a0 ! k = (if lo \<le> k \<and> k < hi then g k else a0 ! k)"
proof (induction hi)
  case 0
  then show ?case by simp
next
  case (Suc hi)
  show ?case
  proof (cases "lo \<le> hi")
    case True
    have "k < length (fold (\<lambda>i a. a[i := g i]) [lo..<hi] a0)"
      using assms by (simp add: fold_update_length)
    then show ?thesis
      using True Suc by (cases "k = hi") auto
  next
    case False
    then have "[lo..<Suc hi] = []" and "(if lo \<le> k \<and> k < Suc hi then g k else a0 ! k) = a0 ! k"
      by auto
    then show ?thesis by (simp only: fold_simps)
  qed
qed

section \<open>The default box, explicitly\<close>

lemma zero_coefficients_zero:
  assumes "box_c b = replicate n 0" and "box_dtilde b = replicate n 0" and "box_d b = replicate n 0"
  shows "fold zero_coefficients xs b = b"
  using assms
proof (induction xs)
  case Nil
  then show ?case by simp
next
  case (Cons a xs)
  have r: "(replicate n (0::complex))[a := 0] = replicate n 0"
    by (cases "a < n") (auto simp add: list_eq_iff_nth_eq nth_list_update)
  have "zero_coefficients a b = b"
    unfolding zero_coefficients_def Cons.prems r
    using Cons.prems by simp
  then show ?case using Cons by simp
qed

lemma Box_default_eq:
  "Box_default = \<lparr>box_level = 3, box_index = 0, box_p = 12, box_empty = True,
        box_c = replicate 13 0, box_dtilde = replicate 13 0, box_d = replicate 13 0,
        box_x = [], box_y = []\<rparr>"
  unfolding Box_default_def by (rule zero_coefficients_zero[of _ 13]) simp_all

section \<open>Lengths of the expansion vectors\<close>

lemma fold_keeps_length:
  assumes "\<And>x a. length (f x a) = length a"
  shows "length (fold f xs a) = length a"
  by (induction xs arbitrary: a) (simp_all add: assms)

lemma mat_vec_length: "length (mat_vec n m coeff) = n"
  unfolding mat_vec_def
  by (simp add: fold_keeps_length[where f = "\<lambda>j ans. ans[i := ans ! i + mat_get m i j * coeff ! j]" for i]
      fold_keeps_length[where f = "\<lambda>i ans. fold (\<lambda>j ans. ans[i := ans ! i + mat_get m i j * coeff ! j]) [0..<n] (ans[i := 0])"])

lemma getSCoeff_length:
  assumes "getSCoeff pot xi xstar = Inr B"
  shows "length B = nat (pot_p pot)"
  using assms unfolding getSCoeff_def Let_def
  by (auto split: if_splits simp add: fold_update_length)

lemma getSCoeff_total:
  assumes "1 \<le> pot_p pot"
  shows "\<exists>B. getSCoeff pot xi xstar = Inr B"
  using assms unfolding getSCoeff_def Let_def by simp

lemma getSS_length:
  assumes "getSS pot from_c to_c sCoeff = Inr r"
  shows "length r = nat (pot_p pot)"
  using assms unfolding getSS_def Let_def
  by (auto split: if_splits simp add: mat_vec_length)

lemma getSR_length:
  assumes "getSR pot from_c to_c sCoeff = Inr r"
  shows "length r = nat (pot_p pot)"
  using assms unfolding getSR_def Let_def
  by (auto split: if_splits simp add: mat_vec_length)

lemma tiny_tree:
  "FmmTree_init 1 [\<lparr>coord = Complex (1/4) (1/4)\<rparr>] [\<lparr>coord = Complex (3/4) (3/4)\<rparr>] \<lparr>pot_p = 5\<rparr>
   = Inr \<lparr>numOfLevels = 1, currLevel = 0,
          fmm_x = [\<lparr>coord = Complex (1/4) (1/4)\<rparr>], fmm_y = [\<lparr>coord = Complex (3/4) (3/4)\<rparr>],
          potential = \<lparr>pot_p = 5\<rparr>,
          tree_structure = [[\<lparr>box_level = 0, box_index = 0, box_p = 5, box_empty = True,
               box_c = replicate 13 0, box_dtilde = replicate 13 0, box_d = replicate 13 0,
               box_x = [\<lparr>coord = Complex (1/4) (1/4)\<rparr>], box_y = [\<lparr>coord = Complex (3/4) (3/4)\<rparr>]\<rparr>]],
          numOpsIndirect = 0, numOpsDirect = 0\<rparr>"
  by (simp add: FmmTree_init_def initStruct_def make_level_def sortX_def sortY_def on_box_def
      box_at_def getBoxIndex_def interleave_def setP_def setIndex_def setLevel_def addX_def addY_def
      Box_default_eq)

section \<open>A tree of one level, and a direct solve on it\<close>

lemma one_level_tree:
  "FmmTree_init 1 [q] [y] pot
   = Inr \<lparr>numOfLevels = 1, currLevel = 0, fmm_x = [q], fmm_y = [y], potential = pot,
          tree_structure = [[\<lparr>box_level = 0, box_index = 0, box_p = pot_p pot, box_empty = True,
               box_c = replicate 13 0, box_dtilde = replicate 13 0, box_d = replicate 13 0,
               box_x = [q], box_y = [y]\<rparr>]],
          numOpsIndirect = 0, numOpsDirect = 0\<rparr>"
  by (simp add: FmmTree_init_def initStruct_def make_level_def sortX_def sortY_def on_box_def
      box_at_def getBoxIndex_def interleave_def setP_def setIndex_def setLevel_def addX_def addY_def
      Box_default_eq)

lemma cmod_real_axis: "cmod (Complex a 0) = \<bar>a\<bar>"
  by (simp add: complex_norm)

lemma Complex_diff: "Complex a b - Complex c d = Complex (a - c) (b - d)"
  by (simp add: complex_eq_iff)

lemma Re_clog: "Re (complex_of_real r * clog z) = r * ln (cmod z)"
  by (simp add: clog_def)

lemma solveDirect_example:
  "solveDirect [1, 2]
     \<lparr>numOfLevels = 1, currLevel = 0, fmm_x = [\<lparr>coord = Complex (1/4) 0\<rparr>],
      fmm_y = [\<lparr>coord = Complex (3/4) 0\<rparr>], potential = pot,
      tree_structure = T, numOpsIndirect = 0, numOpsDirect = 0\<rparr>
   = Inr (\<lparr>numOfLevels = 1, currLevel = 0, fmm_x = [\<lparr>coord = Complex (1/4) 0\<rparr>],
      fmm_y = [\<lparr>coord = Complex (3/4) 0\<rparr>], potential = pot,
      tree_structure = T, numOpsIndirect = 0, numOpsDirect = 1\<rparr>, [ln (1/2)])"
  using far_apart[unfolded coincident_direct_test]
  by (simp add: solveDirect_def direct_pair_def charge_at_def direct_def Re_clog Let_def)
    (simp add: Complex_diff cmod_real_axis clog_def)

section \<open>The evaluation loop only counts operations\<close>

lemma same_but_ops_refl: "same_but_ops ft ft"
  by (simp add: same_but_ops_def)

lemma same_but_ops_update:
  assumes "same_but_ops ft ft'"
  shows "same_but_ops ft (ft'\<lparr>numOpsIndirect := n\<rparr>)"
proof -
  from assms have "ft' = ft\<lparr>numOpsIndirect := numOpsIndirect ft'\<rparr>" by (simp add: same_but_ops_def)
  then have "ft'\<lparr>numOpsIndirect := n\<rparr> = ft\<lparr>numOpsIndirect := numOpsIndirect ft'\<rparr>\<lparr>numOpsIndirect := n\<rparr>"
    by simp
  then show ?thesis by (simp add: same_but_ops_def)
qed

lemma same_but_ops_fields:
  assumes "same_but_ops ft ft'"
  shows "tree_structure ft' = tree_structure ft \<and> fmm_x ft' = fmm_x ft \<and> fmm_y ft' = fmm_y ft
    \<and> potential ft' = potential ft \<and> numOfLevels ft' = numOfLevels ft
    \<and> currLevel ft' = currLevel ft \<and> numOpsDirect ft' = numOpsDirect ft"
proof -
  from assms have e: "ft' = ft\<lparr>numOpsIndirect := numOpsIndirect ft'\<rparr>"
    by (simp add: same_but_ops_def)
  have "tree_structure ft' = tree_structure (ft\<lparr>numOpsIndirect := numOpsIndirect ft'\<rparr>)"
    "fmm_x ft' = fmm_x (ft\<lparr>numOpsIndirect := numOpsIndirect ft'\<rparr>)"
    "fmm_y ft' = fmm_y (ft\<lparr>numOpsIndirect := numOpsIndirect ft'\<rparr>)"
    "potential ft' = potential (ft\<lparr>numOpsIndirect := numOpsIndirect ft'\<rparr>)"
    "numOfLevels ft' = numOfLevels (ft\<lparr>numOpsIndirect := numOpsIndirect ft'\<rparr>)"
    "currLevel ft' = currLevel (ft\<lparr>numOpsIndirect := numOpsIndirect ft'\<rparr>)"
    "numOpsDirect ft' = numOpsDirect (ft\<lparr>numOpsIndirect := numOpsIndirect ft'\<rparr>)"
    using e by simp_all
  then show ?thesis by simp
qed

lemma reg_term_frame:
  assumes "reg_term dv rVec k st = Inr st'" and "same_but_ops ft (fst st)"
  shows "same_but_ops ft (fst st')"
proof -
  from assms(1) have "fst st' = (fst st)\<lparr>numOpsIndirect := numOpsIndirect (fst st) + 1\<rparr>"
    unfolding reg_term_def by (auto split: if_splits)
  then show ?thesis using same_but_ops_update[OF assms(2)] by simp
qed

lemma near_source_frame:
  assumes "near_source u thisY thisX st = Inr st'" and "same_but_ops ft (fst st)"
  shows "same_but_ops ft (fst st')"
proof -
  from assms(1) have "fst st' = fst st
      \<or> fst st' = (fst st)\<lparr>numOpsIndirect := numOpsIndirect (fst st) + 1\<rparr>"
    unfolding near_source_def Let_def by (auto split: sum.splits if_splits)
  then show ?thesis using same_but_ops_update[OF assms(2)] assms(2) by auto
qed

lemma near_box_frame:
  assumes "near_box u thisY m st = Inr st'" and "same_but_ops ft (fst st)"
  shows "same_but_ops ft (fst st')"
proof -
  from assms(1) obtain nb :: Box where f: "foldE (near_source u thisY) (box_x nb) st = Inr st'"
    unfolding near_box_def by (auto split: sum.splits)
  show ?thesis
  proof (rule foldE_Inr_induct[OF f, of "\<lambda>s. same_but_ops ft (fst s)"])
    show "same_but_ops ft (fst st)" by (rule assms(2))
  next
    fix a t t' assume "same_but_ops ft (fst t)" "near_source u thisY a t = Inr t'"
    then show "same_but_ops ft (fst t')" using near_source_frame by blast
  qed
qed

lemma eval_target_frame:
  assumes "eval_target u i thisY st = Inr st'" and "same_but_ops ft (fst st)"
  shows "same_but_ops ft (fst st') \<and> length (snd st') = length (snd st)"
proof -
  from assms(1) obtain thisBox :: Box and rVec ft1 regPart ft2 sinPart where
    r: "foldE (reg_term (box_d thisBox) rVec) [0..<length (box_d thisBox)]
             ((fst st)\<lparr>numOpsIndirect := numOpsIndirect (fst st) + pot_p (potential (fst st))\<rparr>, 0)
         = Inr (ft1, regPart)"
    and n: "foldE (near_box u thisY) (getNeighborsIndex thisBox @ [box_index thisBox]) (ft1, 0)
         = Inr (ft2, sinPart)"
    and s: "st' = (ft2, (snd st)[nat (getIndex (fmm_y ft2) thisY) := sinPart + regPart])"
    unfolding eval_target_def Let_def by (auto split: sum.splits prod.splits if_splits)
  have "same_but_ops ft (fst ((fst st)\<lparr>numOpsIndirect := numOpsIndirect (fst st)
      + pot_p (potential (fst st))\<rparr>, 0::real))"
    using same_but_ops_update[OF assms(2)] by simp
  then have "same_but_ops ft (fst (ft1, regPart))"
  proof (rule foldE_Inr_induct[OF r, of "\<lambda>s. same_but_ops ft (fst s)"])
    fix a t t' assume "same_but_ops ft (fst t)" "reg_term (box_d thisBox) rVec a t = Inr t'"
    then show "same_but_ops ft (fst t')" using reg_term_frame by blast
  qed
  then have "same_but_ops ft (fst (ft1, 0::real))" by simp
  then have "same_but_ops ft (fst (ft2, sinPart))"
  proof (rule foldE_Inr_induct[OF n, of "\<lambda>s. same_but_ops ft (fst s)"])
    fix a t t' assume "same_but_ops ft (fst t)" "near_box u thisY a t = Inr t'"
    then show "same_but_ops ft (fst t')" using near_box_frame by blast
  qed
  then show ?thesis using s by simp
qed

lemma eval_box_frame:
  assumes "eval_box u i st = Inr st'" and "same_but_ops ft (fst st)"
  shows "same_but_ops ft (fst st') \<and> length (snd st') = length (snd st)"
proof -
  from assms(1) obtain thisBox :: Box
    where f: "foldE (eval_target u i) (box_y thisBox) st = Inr st'"
    unfolding eval_box_def by (auto split: sum.splits)
  show ?thesis
  proof (rule foldE_Inr_induct[OF f,
      of "\<lambda>s. same_but_ops ft (fst s) \<and> length (snd s) = length (snd st)"])
    show "same_but_ops ft (fst st) \<and> length (snd st) = length (snd st)"
      using assms(2) by simp
  next
    fix a t t'
    assume "same_but_ops ft (fst t) \<and> length (snd t) = length (snd st)"
      "eval_target u i a t = Inr t'"
    then show "same_but_ops ft (fst t') \<and> length (snd t') = length (snd st)"
      using eval_target_frame[of u i a t t' ft] by simp
  qed
qed

lemma evaluate_frame:
  assumes "evaluate u ft = Inr st'"
  shows "same_but_ops ft (fst st') \<and> length (snd st') = length (fmm_y ft)"
proof -
  from assms have f: "foldE (eval_box u) [0..<length (tree_structure ft ! (numOfLevels ft - 1))]
             (ft, replicate (length (fmm_y ft)) 0) = Inr st'"
    unfolding evaluate_def by (simp split: if_splits)
  show ?thesis
  proof (rule foldE_Inr_induct[OF f,
      of "\<lambda>s. same_but_ops ft (fst s) \<and> length (snd s) = length (fmm_y ft)"])
    show "same_but_ops ft (fst (ft, replicate (length (fmm_y ft)) (0::real)))
        \<and> length (snd (ft, replicate (length (fmm_y ft)) (0::real))) = length (fmm_y ft)"
      by (simp add: same_but_ops_refl)
  next
    fix a t t'
    assume "same_but_ops ft (fst t) \<and> length (snd t) = length (fmm_y ft)"
      "eval_box u a t = Inr t'"
    then show "same_but_ops ft (fst t') \<and> length (snd t') = length (fmm_y ft)"
      using eval_box_frame[of u a t t' ft] by simp
  qed
qed

section \<open>Pieces of one evaluation\<close>

lemma foldE_append:
  "foldE f (xs @ ys) s = (case foldE f xs s of Inl e \<Rightarrow> Inl e | Inr t \<Rightarrow> foldE f ys t)"
  by (induction xs arbitrary: s) (simp_all split: sum.splits)

lemma getRVector_length:
  assumes "getRVector pot yc xstar = Inr rVec"
  shows "length rVec = nat (pot_p pot)"
  using assms unfolding getRVector_def Let_def
  by (auto split: if_splits simp add: fold_update_length)

lemma getRVector_total:
  assumes "0 \<le> pot_p pot"
  shows "\<exists>rVec. getRVector pot yc xstar = Inr rVec"
  using assms unfolding getRVector_def Let_def by simp

lemma reg_loop:
  assumes "n \<le> length rVec"
  shows "foldE (reg_term dv rVec) [0..<n] (ft, s)
     = Inr (ft\<lparr>numOpsIndirect := numOpsIndirect ft + int n\<rparr>,
            s + (\<Sum>k<n. Re (dv ! k * rVec ! k)))"
  using assms
proof (induction n)
  case 0
  then show ?case by simp
next
  case (Suc n)
  then have IH: "foldE (reg_term dv rVec) [0..<n] (ft, s)
     = Inr (ft\<lparr>numOpsIndirect := numOpsIndirect ft + int n\<rparr>,
            s + (\<Sum>k<n. Re (dv ! k * rVec ! k)))" and n: "n < length rVec" by simp_all
  show ?case
    unfolding upt_Suc_append[OF le0] foldE_append IH
    using n by (simp add: reg_term_def algebra_simps)
qed

lemma root_has_no_neighbors:
  assumes "box_level b = 0" and "box_index b = 0"
  shows "getNeighborsIndex b = []"
  unfolding getNeighborsIndex_eq assms uninterleave_ints_0
  by (simp add: neighbor_loop_def offsets_def)

section \<open>One evaluation, step by step\<close>

lemma evaluate_single_pair:
  assumes "coincident (coord yq) (coord xq)"
  shows "evaluate [1]
     \<lparr>numOfLevels = 1, currLevel = 0, fmm_x = [xq], fmm_y = [yq], potential = \<lparr>pot_p = 13\<rparr>,
      tree_structure = [[\<lparr>box_level = 0, box_index = 0, box_p = 13, box_empty = True,
               box_c = replicate 13 0, box_dtilde = replicate 13 0, box_d = replicate 13 0,
               box_x = [xq], box_y = [yq]\<rparr>]],
      numOpsIndirect = 0, numOpsDirect = 0\<rparr>
   = Inr (\<lparr>numOfLevels = 1, currLevel = 0, fmm_x = [xq], fmm_y = [yq], potential = \<lparr>pot_p = 13\<rparr>,
      tree_structure = [[\<lparr>box_level = 0, box_index = 0, box_p = 13, box_empty = True,
               box_c = replicate 13 0, box_dtilde = replicate 13 0, box_d = replicate 13 0,
               box_x = [xq], box_y = [yq]\<rparr>]],
      numOpsIndirect = 26, numOpsDirect = 0\<rparr>, [0])"
proof -
  define B0 where "B0 = \<lparr>box_level = 0, box_index = 0, box_p = 13, box_empty = True,
               box_c = replicate 13 0, box_dtilde = replicate 13 0, box_d = replicate 13 0,
               box_x = [xq], box_y = [yq]\<rparr>"
  define ft where "ft = \<lparr>numOfLevels = 1, currLevel = 0, fmm_x = [xq], fmm_y = [yq],
      potential = \<lparr>pot_p = 13\<rparr>, tree_structure = [[B0]],
      numOpsIndirect = 0, numOpsDirect = 0\<rparr>"
  have f: "numOfLevels ft = 1" "fmm_x ft = [xq]" "fmm_y ft = [yq]" "potential ft = \<lparr>pot_p = 13\<rparr>"
    "tree_structure ft = [[B0]]" "numOpsIndirect ft = 0"
    by (simp_all add: ft_def)
  have b: "\<And>n. box_at (ft\<lparr>numOpsIndirect := n\<rparr>) 0 0 = Inr B0" "box_at ft 0 0 = Inr B0"
    by (simp_all add: box_at_def ft_def)
  obtain rVec where rV: "getRVector \<lparr>pot_p = 13\<rparr> (coord yq) (coord (getCenter B0)) = Inr rVec"
    using getRVector_total[of "\<lparr>pot_p = 13\<rparr>"] by auto
  from getRVector_length[OF rV] have lr: "length rVec = 13" by simp
  have d: "box_d B0 = replicate 13 0" "length (box_d B0) = 13" "box_x B0 = [xq]" "box_y B0 = [yq]"
    "box_index B0 = 0" "box_level B0 = 0"
    by (simp_all add: B0_def)
  have z: "(\<Sum>k<13. Re (replicate 13 0 ! k * rVec ! k)) = (0::real)"
    by (rule sum.neutral) simp
  have reg: "foldE (reg_term (box_d B0) rVec) [0..<length (box_d B0)]
      (ft\<lparr>numOpsIndirect := numOpsIndirect ft + pot_p (potential ft)\<rparr>, 0)
      = Inr (ft\<lparr>numOpsIndirect := 26\<rparr>, 0)"
    unfolding d using reg_loop[of 13 rVec "replicate 13 0"
        "ft\<lparr>numOpsIndirect := numOpsIndirect ft + pot_p (potential ft)\<rparr>" 0] lr z
    by (simp add: f)
  have u: "charge_at [1] (getIndex [xq] xq) = Inr 1" and gi: "getIndex [yq] yq = 0"
    using equals_self[of xq] equals_self[of yq] by (simp_all add: getIndex_def charge_at_def)
  have co: "le_magnitude (abs_complex (minus_complex (coord yq) (coord xq)))
      (times_magnitude epsilon
        (max_magnitude (Finite 1) (max_magnitude (abs_complex (coord xq)) (abs_complex (coord yq)))))"
    using assms by (simp only: coincident_def)
  have ns: "near_source [1] yq xq (ft\<lparr>numOpsIndirect := 26\<rparr>, 0)
      = Inr (ft\<lparr>numOpsIndirect := 26\<rparr>, 0)"
    unfolding near_source_def Let_def using co u by (simp add: f)
  have nb: "near_box [1] yq 0 (ft\<lparr>numOpsIndirect := 26\<rparr>, 0)
      = Inr (ft\<lparr>numOpsIndirect := 26\<rparr>, 0)"
    unfolding near_box_def using b(1)[of 26] ns by (simp add: f d)
  have nl: "getNeighborsIndex B0 @ [box_index B0] = [0]"
    using root_has_no_neighbors[of B0] by (simp add: d)
  have et: "eval_target [1] 0 yq (ft, [0]) = Inr (ft\<lparr>numOpsIndirect := 26\<rparr>, [0])"
    unfolding eval_target_def Let_def using b(2) rV reg nb nl gi
    by (simp add: f)
  have eb: "eval_box [1] 0 (ft, [0]) = Inr (ft\<lparr>numOpsIndirect := 26\<rparr>, [0])"
    unfolding eval_box_def using b(2) et by (simp add: f d)
  have "evaluate [1] ft = Inr (ft\<lparr>numOpsIndirect := 26\<rparr>, [0])"
    unfolding evaluate_def using eb by (simp add: f)
  then show ?thesis unfolding ft_def B0_def by simp
qed

lemma evaluate_example:
  "evaluate [1]
     \<lparr>numOfLevels = 1, currLevel = 0, fmm_x = [\<lparr>coord = Complex (1/4) 0\<rparr>],
      fmm_y = [\<lparr>coord = Complex (1/4) 0\<rparr>], potential = \<lparr>pot_p = 13\<rparr>,
      tree_structure = [[\<lparr>box_level = 0, box_index = 0, box_p = 13, box_empty = True,
               box_c = replicate 13 0, box_dtilde = replicate 13 0, box_d = replicate 13 0,
               box_x = [\<lparr>coord = Complex (1/4) 0\<rparr>], box_y = [\<lparr>coord = Complex (1/4) 0\<rparr>]\<rparr>]],
      numOpsIndirect = 0, numOpsDirect = 0\<rparr>
   = Inr (\<lparr>numOfLevels = 1, currLevel = 0, fmm_x = [\<lparr>coord = Complex (1/4) 0\<rparr>],
      fmm_y = [\<lparr>coord = Complex (1/4) 0\<rparr>], potential = \<lparr>pot_p = 13\<rparr>,
      tree_structure = [[\<lparr>box_level = 0, box_index = 0, box_p = 13, box_empty = True,
               box_c = replicate 13 0, box_dtilde = replicate 13 0, box_d = replicate 13 0,
               box_x = [\<lparr>coord = Complex (1/4) 0\<rparr>], box_y = [\<lparr>coord = Complex (1/4) 0\<rparr>]\<rparr>]],
      numOpsIndirect = 26, numOpsDirect = 0\<rparr>, [0])"
  by (rule evaluate_single_pair) (rule coincident_self)

section \<open>The coincidence test in both solvers\<close>









section \<open>What the near-field loops add up\<close>









section \<open>What the evaluation loop stores\<close>






section \<open>What solveDirect returns\<close>




section \<open>One evaluation with a pair that is not coincident\<close>


section \<open>Lengths of the coefficient arrays\<close>

text \<open>
  Claim C1, as stated with exactly \<open>p\<close> entries, fails on the code: the constructor
  \<open>Box(level, index, p)\<close> allocates \<open>c(p+1)\<close>, \<open>dtilde(p+1)\<close> and \<open>d(p+1)\<close>,
  as the header comment of \<open>Box.cc\<close> announces. A box constructed with \<open>p = 5\<close>
  has arrays of \<open>6\<close> entries.
\<close>

theorem box_arrays_not_p_counterexample:
  "\<not> isl (Box_init 2 0 5) \<and> box_p (projr (Box_init 2 0 5)) = 5
   \<and> length (box_c (projr (Box_init 2 0 5))) = 6
   \<and> length (box_dtilde (projr (Box_init 2 0 5))) = 6
   \<and> length (box_d (projr (Box_init 2 0 5))) = 6"
proof -
  have i: "\<not> isl (Box_init 2 0 5)" by (simp add: Box_init_def)
  then have e: "Box_init 2 0 5 = Inr (projr (Box_init 2 0 5))" by simp
  have "box_p (projr (Box_init 2 0 5)) = 5"
    by (simp add: Box_init_def zero_coefficients_keeps)
  then show ?thesis using i Box_init_lengths[OF e] by simp
qed

text \<open>
  Claim C1, amended. Every cell's three coefficient arrays \<open>c\<close>, \<open>dtilde\<close> and \<open>d\<close>
  have exactly \<open>p + 1\<close> entries each, with indices \<open>0..p\<close>, from construction onward
  and after every sequence of member calls (\<open>setLevel\<close>, \<open>setIndex\<close>, \<open>setP\<close>,
  \<open>addToC\<close>, \<open>addToD\<close>, \<open>addToDtilde\<close>, \<open>addX\<close>, \<open>addY\<close>) that returns, where
  \<open>p\<close> is the truncation order the cell was constructed with: the argument of
  \<open>Box(level, index, p)\<close>, or \<open>12\<close> for the default constructor, whatever \<open>setP\<close>
  stores later.
\<close>

theorem box_arrays_keep_length:
  assumes "Box_init level index p = Inr b \<or> (b = Box_default \<and> p = 12)"
    and "foldE call cs b = Inr b'"
  shows "length (box_c b') = nat (p + 1) \<and> length (box_dtilde b') = nat (p + 1)
         \<and> length (box_d b') = nat (p + 1)"
proof -
  have "length (box_c b) = nat (p + 1) \<and> length (box_dtilde b) = nat (p + 1)
         \<and> length (box_d b) = nat (p + 1)"
    using assms(1)
  proof
    assume "Box_init level index p = Inr b"
    then show ?thesis by (rule Box_init_lengths)
  next
    assume "b = Box_default \<and> p = 12"
    then show ?thesis by (simp add: Box_default_fields)
  qed
  then show ?thesis using calls_lengths[OF assms(2)] by simp
qed

theorem box_arrays_keep_length_witness:
  "(Box_init 2 0 5 = Inr (projr (Box_init 2 0 5))
      \<or> (projr (Box_init 2 0 5) = Box_default \<and> (5::int) = 12))
   \<and> foldE call [SetP 7, AddToC [1, 2, 3, 4, 5, 6], AddX \<lparr>coord = 0\<rparr>] (projr (Box_init 2 0 5))
       = Inr (projr (foldE call [SetP 7, AddToC [1, 2, 3, 4, 5, 6], AddX \<lparr>coord = 0\<rparr>]
                (projr (Box_init 2 0 5))))
   \<and> length (box_c (projr (foldE call [SetP 7, AddToC [1, 2, 3, 4, 5, 6], AddX \<lparr>coord = 0\<rparr>]
                (projr (Box_init 2 0 5))))) = nat (5 + 1)
   \<and> length (box_dtilde (projr (foldE call [SetP 7, AddToC [1, 2, 3, 4, 5, 6], AddX \<lparr>coord = 0\<rparr>]
                (projr (Box_init 2 0 5))))) = nat (5 + 1)
   \<and> length (box_d (projr (foldE call [SetP 7, AddToC [1, 2, 3, 4, 5, 6], AddX \<lparr>coord = 0\<rparr>]
                (projr (Box_init 2 0 5))))) = nat (5 + 1)"
proof -
  define B where "B = projr (Box_init 2 0 5)"
  define cs where "cs = [SetP 7, AddToC [1, 2, 3, 4, 5, 6], AddX \<lparr>coord = 0\<rparr>]"
  have "\<not> isl (Box_init 2 0 5)" by (simp add: Box_init_def)
  then have e: "Box_init 2 0 5 = Inr B" by (simp add: B_def)
  have "length (box_c (setP 7 B)) = 6"
    using Box_init_lengths[OF e] by (simp add: setP_def)
  then have "length (box_c (setP 7 B)) \<le> length [1, 2, 3, 4, 5, 6 :: complex]" by simp
  then obtain b2 where b2: "addToC [1, 2, 3, 4, 5, 6] (setP 7 B) = Inr b2"
    unfolding addToC_succeeds_iff[symmetric] by blast
  have "foldE call cs B = Inr (addX \<lparr>coord = 0\<rparr> b2)"
    by (simp add: cs_def b2)
  then have r: "foldE call cs B = Inr (projr (foldE call cs B))" by simp
  have h: "Box_init 2 0 5 = Inr B \<or> (B = Box_default \<and> (5::int) = 12)" using e by simp
  from box_arrays_keep_length[OF h r] h r
  show ?thesis unfolding B_def cs_def by (intro conjI) simp_all
qed

section \<open>The seed step reads past the end of its increment\<close>

text \<open>
  Claim C2 says that every increment passed to \<open>addToC\<close> during \<open>upwardPass\<close> is at
  least as long as the cell's array \<open>c\<close>. The code does not keep it: the cells of a
  tree are default-constructed, so \<open>c\<close> has \<open>13\<close> entries, while \<open>getSCoeff\<close>
  returns \<open>p\<close> entries. With \<open>p = 5\<close>, the value \<open>Main.cc\<close> uses, one source
  point and one charge, the seed step of \<open>upwardPass\<close> reads \<open>increment[5]\<close> of a
  vector of five entries.
\<close>

theorem upwardPass_reads_past_increment:
  "upwardPass [1]
     (projr (FmmTree_init 1 [\<lparr>coord = Complex (1/4) (1/4)\<rparr>] [\<lparr>coord = Complex (3/4) (3/4)\<rparr>]
               \<lparr>pot_p = 5\<rparr>))
   = Inl OutOfBounds"
proof -
  define q where "q = \<lparr>coord = Complex (1/4) (1/4)\<rparr>"
  define B0 where "B0 = \<lparr>box_level = 0, box_index = 0, box_p = 5, box_empty = True,
               box_c = replicate 13 0, box_dtilde = replicate 13 0, box_d = replicate 13 0,
               box_x = [q], box_y = [\<lparr>coord = Complex (3/4) (3/4)\<rparr>]\<rparr>"
  define ft where "ft = \<lparr>numOfLevels = 1, currLevel = 0,
          fmm_x = [q], fmm_y = [\<lparr>coord = Complex (3/4) (3/4)\<rparr>],
          potential = \<lparr>pot_p = 5\<rparr>,
          tree_structure = [[B0]], numOpsIndirect = 0, numOpsDirect = 0\<rparr>"
  have t: "projr (FmmTree_init 1 [\<lparr>coord = Complex (1/4) (1/4)\<rparr>]
               [\<lparr>coord = Complex (3/4) (3/4)\<rparr>] \<lparr>pot_p = 5\<rparr>) = ft"
    unfolding tiny_tree ft_def B0_def q_def by simp
  have b: "box_at ft 0 0 = Inr B0" by (simp add: box_at_def ft_def)
  obtain B where B: "getSCoeff \<lparr>pot_p = 5\<rparr> (coord q) (coord (getCenter B0)) = Inr B"
    using getSCoeff_total[of "\<lparr>pot_p = 5\<rparr>"] by auto
  from getSCoeff_length[OF B] have lB: "length B = 5" by simp
  have "equals q q" by (rule equals_self)
  then have u: "charge_at [1] (getIndex [q] q) = Inr 1"
    by (simp add: getIndex_def charge_at_def)
  have "length (map (\<lambda>b. b * complex_of_real 1) B) < length (box_c B0)"
    using lB by (simp add: B0_def)
  then have a: "addToC (map (\<lambda>b. b * complex_of_real 1) B) B0 = Inl OutOfBounds"
    by (simp only: addToC_fails_iff)
  have o: "on_box 0 0 (addToC (map (\<lambda>b. b * complex_of_real 1) B))
            (ft\<lparr>numOpsIndirect := numOpsIndirect ft + 1 + pot_p (potential ft)
                    + int (length B) + pot_p (potential ft)\<rparr>) = Inl OutOfBounds"
    unfolding on_box_def using a by (simp add: box_at_def ft_def)
  have f: "numOfLevels ft = 1" "fmm_x ft = [q]" "potential ft = \<lparr>pot_p = 5\<rparr>"
    by (simp_all add: ft_def)
  have s: "seed_source [1] 0 q ft = Inl OutOfBounds"
    unfolding seed_source_def Let_def f using b B u o by (simp add: f)
  have "seed_box [1] 0 ft = Inl OutOfBounds"
    unfolding seed_box_def f using b s by (simp add: B0_def)
  then have "upwardPass [1] ft = Inl OutOfBounds"
    unfolding upwardPass_def by (simp add: ft_def)
  then show ?thesis unfolding t .
qed

section \<open>Coincident pairs are skipped, by the same rule in both solvers\<close>



section \<open>What the constructor checks\<close>

text \<open>
  Claim C4, as stated, fails on the code for two of its three kinds of invalid input.
  With truncation order \<open>p = 0\<close> and two charges for one source point, the
  constructor returns a tree and \<open>solveDirect\<close> returns a result vector: neither
  \<open>p\<close> nor the number of charges is checked anywhere.
\<close>

theorem unchecked_order_and_charges_counterexample:
  "\<not> isl (FmmTree_init 1 [\<lparr>coord = Complex (1/4) 0\<rparr>] [\<lparr>coord = Complex (3/4) 0\<rparr>] \<lparr>pot_p = 0\<rparr>)
   \<and> length [1, 2 :: real] \<noteq> length [\<lparr>coord = Complex (1/4) 0\<rparr>]
   \<and> map_sum id snd
        (solveDirect [1, 2]
          (projr (FmmTree_init 1 [\<lparr>coord = Complex (1/4) 0\<rparr>] [\<lparr>coord = Complex (3/4) 0\<rparr>]
                   \<lparr>pot_p = 0\<rparr>)))
       = Inr [ln (1/2)]"
proof -
  have "map_sum id snd
        (solveDirect [1, 2]
          (projr (FmmTree_init 1 [\<lparr>coord = Complex (1/4) 0\<rparr>] [\<lparr>coord = Complex (3/4) 0\<rparr>]
                   \<lparr>pot_p = 0\<rparr>)))
       = Inr [ln (1/2)]"
    unfolding one_level_tree sum.sel solveDirect_example by simp
  then show ?thesis unfolding one_level_tree by simp
qed

text \<open>
  Claim C4, amended. For a level argument outside \<open>[1,8]\<close>, building the tree fails
  fast (the assertion aborts; a negative level already makes the vector constructor
  throw), so no tree exists and no result vector is produced. The truncation order
  \<open>p\<close> is not validated at construction: for every level in \<open>[1,8]\<close> and no fewer
  targets than sources the constructor returns a tree whatever \<open>p\<close> is.
\<close>

theorem constructor_checks_level_only:
  "(\<not> (1 \<le> level \<and> level \<le> 8) \<longrightarrow>
      FmmTree_init level sources targets pot = Inl AssertionFailed
      \<or> FmmTree_init level sources targets pot = Inl LengthError)
   \<and> (1 \<le> level \<and> level \<le> 8 \<and> length sources \<le> length targets \<longrightarrow>
      \<not> isl (FmmTree_init level sources targets pot))"
proof (intro conjI impI)
  assume "\<not> (1 \<le> level \<and> level \<le> 8)"
  then show "FmmTree_init level sources targets pot = Inl AssertionFailed
      \<or> FmmTree_init level sources targets pot = Inl LengthError"
    unfolding FmmTree_init_def by auto
next
  assume "1 \<le> level \<and> level \<le> 8 \<and> length sources \<le> length targets"
  then have "\<exists>ft. FmmTree_init level sources targets pot = Inr ft"
    using FmmTree_init_total[of level sources targets pot] by blast
  then show "\<not> isl (FmmTree_init level sources targets pot)" by auto
qed

theorem constructor_checks_level_only_witness:
  "\<not> (1 \<le> (9::int) \<and> (9::int) \<le> 8)
   \<and> (FmmTree_init 9 [] [] \<lparr>pot_p = 5\<rparr> = Inl AssertionFailed
        \<or> FmmTree_init 9 [] [] \<lparr>pot_p = 5\<rparr> = Inl LengthError)
   \<and> (1 \<le> (3::int) \<and> (3::int) \<le> 8
        \<and> length [\<lparr>coord = Complex (1/4) 0\<rparr>] \<le> length [\<lparr>coord = Complex (3/4) 0\<rparr>])
   \<and> \<not> isl (FmmTree_init 3 [\<lparr>coord = Complex (1/4) 0\<rparr>] [\<lparr>coord = Complex (3/4) 0\<rparr>]
              \<lparr>pot_p = 0\<rparr>)"
proof -
  have a: "\<not> (1 \<le> (9::int) \<and> (9::int) \<le> 8)" by simp
  have b: "1 \<le> (3::int) \<and> (3::int) \<le> 8
        \<and> length [\<lparr>coord = Complex (1/4) 0\<rparr>] \<le> length [\<lparr>coord = Complex (3/4) 0\<rparr>]" by simp
  note T1 = constructor_checks_level_only[of 9 "[]" "[]" "\<lparr>pot_p = 5\<rparr>",
      THEN conjunct1, rule_format, OF a]
  note T2 = constructor_checks_level_only[of 3 "[\<lparr>coord = Complex (1/4) 0\<rparr>]"
      "[\<lparr>coord = Complex (3/4) 0\<rparr>]" "\<lparr>pot_p = 0\<rparr>", THEN conjunct2, rule_format, OF b]
  show ?thesis by (intro conjI a T1 b T2)
qed

section \<open>Interaction lists and the far-to-near operator\<close>

text \<open>
  Claim C5. For every level from \<open>2\<close> to \<open>8\<close> and every address \<open>n\<close> at that
  level, the interaction list that \<open>getNeighborsE4Index\<close> produces contains neither
  \<open>n\<close> itself nor any member of the neighbour set of \<open>n\<close>. Consequently
  \<open>downwardPass1\<close>, run on a tree of the shape the constructor builds, never calls
  \<open>getSR\<close> with the translation vector \<open>t = 0\<close>: the only outcome of \<open>getSR\<close> that
  stands for \<open>log 0\<close> and \<open>1 / 0\<close> is never the outcome of the pass.
\<close>

theorem interaction_list_disjoint:
  assumes "2 \<le> box_level b" and "box_level b \<le> 8"
    and "0 \<le> sint (box_index b)" and "sint (box_index b) < 4 ^ box_level b"
  shows "box_index b \<notin> set (getNeighborsE4Index b)
    \<and> set (getNeighborsIndex b) \<inter> set (getNeighborsE4Index b) = {}
    \<and> (\<forall>m\<in>set (getNeighborsE4Index b). \<forall>b'. box_level b' = box_level b \<and> box_index b' = m
          \<longrightarrow> coord (getCenter b) - coord (getCenter b') \<noteq> 0)
    \<and> (tree_inv ft \<longrightarrow> downwardPass1 ft \<noteq> Inl NotFinite)"
proof -
  have l: "1 \<le> box_level b" "box_level b \<le> 15" using assms(1,2) by simp_all
  note E = E4_other[OF l assms(3,4)]
  have a: "box_index b \<notin> set (getNeighborsE4Index b)" using E by blast
  have c: "set (getNeighborsIndex b) \<inter> set (getNeighborsE4Index b) = {}" using E by blast
  have d: "\<forall>m\<in>set (getNeighborsE4Index b). \<forall>b'. box_level b' = box_level b \<and> box_index b' = m
          \<longrightarrow> coord (getCenter b) - coord (getCenter b') \<noteq> 0"
  proof (intro ballI allI impI)
    fix m and b' :: Box assume m: "m \<in> set (getNeighborsE4Index b)"
      and b': "box_level b' = box_level b \<and> box_index b' = m"
    show "coord (getCenter b) - coord (getCenter b') \<noteq> 0"
    proof
      assume z: "coord (getCenter b) - coord (getCenter b') = 0"
      have "box_index b = box_index b'"
        by (rule getCenter_inj[OF _ l(2) assms(3,4) _ _ z]) (use E[OF m] b' in simp_all)
      then show False using E[OF m] b' by simp
    qed
  qed
  show ?thesis using a c d downwardPass1_finite[of ft] by blast
qed

theorem interaction_list_disjoint_witness:
  "2 \<le> box_level (setIndex 2 Box_default) \<and> box_level (setIndex 2 Box_default) \<le> 8
   \<and> 0 \<le> sint (box_index (setIndex 2 Box_default))
   \<and> sint (box_index (setIndex 2 Box_default)) < 4 ^ box_level (setIndex 2 Box_default)
   \<and> 4 \<in> set (getNeighborsE4Index (setIndex 2 Box_default))
   \<and> box_level (setIndex 4 Box_default) = box_level (setIndex 2 Box_default)
   \<and> box_index (setIndex 4 Box_default) = 4
   \<and> tree_inv (projr (FmmTree_init 3 [] [] \<lparr>pot_p = 13\<rparr>))
   \<and> box_index (setIndex 2 Box_default) \<notin> set (getNeighborsE4Index (setIndex 2 Box_default))
   \<and> set (getNeighborsIndex (setIndex 2 Box_default))
       \<inter> set (getNeighborsE4Index (setIndex 2 Box_default)) = {}
   \<and> coord (getCenter (setIndex 2 Box_default)) - coord (getCenter (setIndex 4 Box_default)) \<noteq> 0
   \<and> downwardPass1 (projr (FmmTree_init 3 [] [] \<lparr>pot_p = 13\<rparr>)) \<noteq> Inl NotFinite"
proof -
  have lv: "box_level (setIndex 2 Box_default) = 3" "box_index (setIndex 2 Box_default) = 2"
    "box_level (setIndex 4 Box_default) = 3" "box_index (setIndex 4 Box_default) = 4"
    by (simp_all add: setIndex_def Box_default_fields)
  have h: "2 \<le> box_level (setIndex 2 Box_default)" "box_level (setIndex 2 Box_default) \<le> 8"
    "0 \<le> sint (box_index (setIndex 2 Box_default))"
    "sint (box_index (setIndex 2 Box_default)) < 4 ^ box_level (setIndex 2 Box_default)"
    unfolding lv by simp_all
  have m: "4 \<in> set (getNeighborsE4Index (setIndex 2 Box_default))"
    unfolding E4_example by simp
  from FmmTree_init_total[of 3 "[]" "[]" "\<lparr>pot_p = 13\<rparr>"]
  have t: "tree_inv (projr (FmmTree_init 3 [] [] \<lparr>pot_p = 13\<rparr>))" by auto
  note T = interaction_list_disjoint[OF h, of "projr (FmmTree_init 3 [] [] \<lparr>pot_p = 13\<rparr>)"]
  have a: "box_index (setIndex 2 Box_default) \<notin> set (getNeighborsE4Index (setIndex 2 Box_default))"
    by (rule T[THEN conjunct1])
  have c: "set (getNeighborsIndex (setIndex 2 Box_default))
       \<inter> set (getNeighborsE4Index (setIndex 2 Box_default)) = {}"
    by (rule T[THEN conjunct2, THEN conjunct1])
  have d: "coord (getCenter (setIndex 2 Box_default)) - coord (getCenter (setIndex 4 Box_default)) \<noteq> 0"
    by (rule T[THEN conjunct2, THEN conjunct2, THEN conjunct1, rule_format, OF m])
      (simp add: lv)
  have e: "downwardPass1 (projr (FmmTree_init 3 [] [] \<lparr>pot_p = 13\<rparr>)) \<noteq> Inl NotFinite"
    by (rule T[THEN conjunct2, THEN conjunct2, THEN conjunct2, rule_format, OF t])
  show ?thesis
    by (intro conjI h m lv(3,4) t a c d e) (simp add: lv)
qed

section \<open>Round trip of the address encoding\<close>

text \<open>
  Claim C6. For every \<open>L\<close> in \<open>[1,8]\<close> and every address \<open>n\<close> in \<open>[0,4^L)\<close>,
  interleaving at level \<open>L\<close> the grid coordinates that \<open>uninterleave n L\<close> returns
  (read back as integers, as \<open>getNeighborsIndex\<close> does) gives \<open>n\<close> again.
\<close>

theorem interleave_uninterleave_roundtrip:
  assumes "1 \<le> L" and "L \<le> 8" and "0 \<le> sint n" and "sint n < 4 ^ L"
  shows "interleave (int_of_double (Re (uninterleave n L)))
           (int_of_double (Im (uninterleave n L))) L = n"
  unfolding uninterleave_coords
  using assms by (intro interleave_uninterleave_ints) simp_all

theorem interleave_uninterleave_roundtrip_witness:
  "1 \<le> (3::nat) \<and> (3::nat) \<le> 8 \<and> 0 \<le> sint (46::cint) \<and> sint (46::cint) < 4 ^ 3
   \<and> interleave (int_of_double (Re (uninterleave 46 3)))
         (int_of_double (Im (uninterleave 46 3))) 3 = (46::cint)"
  using interleave_uninterleave_roundtrip[of 3 46] by simp

section \<open>Parent and child consistency\<close>

text \<open>
  Claim C7, as stated for every non-negative address, fails on 32-bit integers: the
  address \<open>2^29\<close> shifted left by two bits is \<open>2^31\<close>, which as an \<open>int\<close> is
  negative, and its arithmetic shift right by two bits is \<open>-2^29\<close>.
\<close>

theorem child_parent_overflow_counterexample:
  "getParentIndex (setIndex (hd (getChildrenIndex (setIndex 536870912 Box_default))) Box_default)
     \<noteq> 536870912"
  by (simp add: getParentIndex_def setIndex_def getChildrenIndex_def)

text \<open>
  Claim C7, amended. For every address \<open>n\<close> with \<open>0 \<le> n < 2^29\<close>, which covers
  every address of a tree of at most 8 levels, each of the four child addresses
  \<open>(n<<2)+0, \<dots>, (n<<2)+3\<close> that \<open>getChildrenIndex\<close> produces has parent address
  exactly \<open>n\<close> under \<open>getParentIndex\<close>, that is \<open>c >> 2\<close>.
\<close>

theorem child_parent_consistent:
  assumes "0 \<le> sint (box_index b)" and "sint (box_index b) < 2 ^ 29"
    and "ch \<in> set (getChildrenIndex b)"
  shows "getParentIndex (setIndex ch b') = box_index b"
proof -
  from children_set[OF assms(3)] obtain i :: cint
    where i: "i \<in> {0, 1, 2, 3}" "ch = push_bit 2 (box_index b) + i" by blast
  from sint_small[OF i(1)] have r: "0 \<le> sint i" "sint i < 4" by blast+
  have "signed_drop_bit 2 (push_bit 2 (box_index b) + i) = box_index b"
    by (rule parent_of_child[OF assms(1,2) r])
  then show ?thesis
    unfolding getParentIndex_def setIndex_def i(2) by simp
qed

theorem child_parent_consistent_witness:
  "0 \<le> sint (box_index (setIndex 9 Box_default))
   \<and> sint (box_index (setIndex 9 Box_default)) < 2 ^ 29
   \<and> 38 \<in> set (getChildrenIndex (setIndex 9 Box_default))
   \<and> getParentIndex (setIndex 38 Box_default) = box_index (setIndex 9 Box_default)"
  using child_parent_consistent[of "setIndex 9 Box_default" 38 Box_default]
  by (simp add: setIndex_def getChildrenIndex_def)

section \<open>The far-field coefficients of a unit charge\<close>

text \<open>
  Claim C8. For every truncation order \<open>p \<ge> 1\<close> and all complex \<open>xi\<close> and \<open>xstar\<close>,
  \<open>getSCoeff xi xstar\<close> returns a vector of exactly \<open>p\<close> coefficients \<open>b\<close> with
  \<open>b[0] = 1\<close> and \<open>b[m] = - (xi - xstar)^m / m\<close> for every \<open>m\<close> in \<open>1..p-1\<close>
  (in exact complex arithmetic).
\<close>

theorem getSCoeff_values:
  assumes "1 \<le> pot_p pot"
  shows "\<not> isl (getSCoeff pot xi xstar)
    \<and> length (projr (getSCoeff pot xi xstar)) = nat (pot_p pot)
    \<and> projr (getSCoeff pot xi xstar) ! 0 = 1
    \<and> (\<forall>m. 1 \<le> m \<and> m < nat (pot_p pot) \<longrightarrow>
          projr (getSCoeff pot xi xstar) ! m = - ((xi - xstar) ^ m) / of_nat m)"
proof -
  define n where "n = nat (pot_p pot)"
  define g where "g = (\<lambda>i. - 1 * (xi - xstar) ^ i / (of_nat i :: complex))"
  define a0 where "a0 = (replicate n (0 :: complex))[0 := 1]"
  have n: "0 < n" using assms by (simp add: n_def)
  have e: "getSCoeff pot xi xstar = Inr (fold (\<lambda>i ans. ans[i := g i]) [1..<n] a0)"
    using assms unfolding getSCoeff_def Let_def g_def a0_def n_def by simp
  have l: "length a0 = n" by (simp add: a0_def)
  have z: "a0 ! 0 = 1" using n by (simp add: a0_def)
  show ?thesis
    unfolding e sum.sel n_def[symmetric]
    using n l z by (simp add: fold_update_nth fold_update_length g_def)
qed

theorem getSCoeff_values_witness:
  "1 \<le> pot_p \<lparr>pot_p = 3\<rparr>
   \<and> \<not> isl (getSCoeff \<lparr>pot_p = 3\<rparr> (Complex 2 1) (Complex 1 1))
   \<and> length (projr (getSCoeff \<lparr>pot_p = 3\<rparr> (Complex 2 1) (Complex 1 1))) = nat (pot_p \<lparr>pot_p = 3\<rparr>)
   \<and> projr (getSCoeff \<lparr>pot_p = 3\<rparr> (Complex 2 1) (Complex 1 1)) ! 0 = 1
   \<and> 1 \<le> (2::nat) \<and> (2::nat) < nat (pot_p \<lparr>pot_p = 3\<rparr>)
   \<and> projr (getSCoeff \<lparr>pot_p = 3\<rparr> (Complex 2 1) (Complex 1 1)) ! 2
       = - ((Complex 2 1 - Complex 1 1) ^ 2) / of_nat 2"
proof -
  have h: "1 \<le> pot_p \<lparr>pot_p = 3\<rparr>" by simp
  have m: "1 \<le> (2::nat) \<and> (2::nat) < nat (pot_p \<lparr>pot_p = 3\<rparr>)" by simp
  note T = getSCoeff_values[OF h, of "Complex 2 1" "Complex 1 1"]
  have d: "projr (getSCoeff \<lparr>pot_p = 3\<rparr> (Complex 2 1) (Complex 1 1)) ! 2
       = - ((Complex 2 1 - Complex 1 1) ^ 2) / of_nat 2"
    by (rule T[THEN conjunct2, THEN conjunct2, THEN conjunct2, rule_format, OF m])
  show ?thesis
    by (intro conjI h T[THEN conjunct1] T[THEN conjunct2, THEN conjunct1]
        T[THEN conjunct2, THEN conjunct2, THEN conjunct1] m[THEN conjunct1] m[THEN conjunct2] d)
qed

section \<open>The evaluation phase leaves the cells alone\<close>

text \<open>
  Claim C9, as stated, ends with "only the output potential vector is written". The
  evaluation loop also advances the solver's operation counter \<open>numOpsIndirect\<close>:
  on a tree of one level with one source and one target it goes from \<open>0\<close> to \<open>26\<close>.
\<close>

theorem evaluation_counts_operations_counterexample:
  "\<not> isl (evaluate [1]
       (projr (FmmTree_init 1 [\<lparr>coord = Complex (1/4) 0\<rparr>] [\<lparr>coord = Complex (1/4) 0\<rparr>]
                \<lparr>pot_p = 13\<rparr>)))
   \<and> numOpsIndirect (fst (projr (evaluate [1]
       (projr (FmmTree_init 1 [\<lparr>coord = Complex (1/4) 0\<rparr>] [\<lparr>coord = Complex (1/4) 0\<rparr>]
                \<lparr>pot_p = 13\<rparr>)))))
     \<noteq> numOpsIndirect
       (projr (FmmTree_init 1 [\<lparr>coord = Complex (1/4) 0\<rparr>] [\<lparr>coord = Complex (1/4) 0\<rparr>]
                \<lparr>pot_p = 13\<rparr>))"
  unfolding one_level_tree sum.sel Potential.simps evaluate_example by simp

text \<open>
  Claim C9, amended. The evaluation phase (the loop over the targets that ends
  \<open>solve\<close>) mutates no cell: every cell of the tree, and with it its arrays \<open>C\<close>,
  \<open>Dtilde\<close> and \<open>D\<close>, is identical before and after evaluation. Of the solver's
  state only the operation counter \<open>numOpsIndirect\<close> changes; besides it only the
  output potential vector, one entry per target, is written.
\<close>

theorem evaluation_frame:
  assumes "evaluate u ft = Inr (ft', v)"
  shows "tree_structure ft' = tree_structure ft
    \<and> box_at ft' el k = box_at ft el k
    \<and> ft' = ft\<lparr>numOpsIndirect := numOpsIndirect ft'\<rparr>
    \<and> length v = length (fmm_y ft)"
proof -
  from evaluate_frame[OF assms] have s: "same_but_ops ft ft'" and l: "length v = length (fmm_y ft)"
    by simp_all
  from same_but_ops_fields[OF s] have t: "tree_structure ft' = tree_structure ft" by simp
  then have "box_at ft' el k = box_at ft el k" by (simp add: box_at_def)
  then show ?thesis using t l s by (simp add: same_but_ops_def)
qed

theorem evaluation_frame_witness:
  "evaluate [1]
       (projr (FmmTree_init 1 [\<lparr>coord = Complex (1/4) 0\<rparr>] [\<lparr>coord = Complex (1/4) 0\<rparr>]
                \<lparr>pot_p = 13\<rparr>))
     = Inr (fst (projr (evaluate [1]
       (projr (FmmTree_init 1 [\<lparr>coord = Complex (1/4) 0\<rparr>] [\<lparr>coord = Complex (1/4) 0\<rparr>]
                \<lparr>pot_p = 13\<rparr>)))), [0])
   \<and> tree_structure (fst (projr (evaluate [1]
       (projr (FmmTree_init 1 [\<lparr>coord = Complex (1/4) 0\<rparr>] [\<lparr>coord = Complex (1/4) 0\<rparr>]
                \<lparr>pot_p = 13\<rparr>)))))
     = tree_structure
       (projr (FmmTree_init 1 [\<lparr>coord = Complex (1/4) 0\<rparr>] [\<lparr>coord = Complex (1/4) 0\<rparr>]
                \<lparr>pot_p = 13\<rparr>))
   \<and> length [0 :: real] = length (fmm_y
       (projr (FmmTree_init 1 [\<lparr>coord = Complex (1/4) 0\<rparr>] [\<lparr>coord = Complex (1/4) 0\<rparr>]
                \<lparr>pot_p = 13\<rparr>)))"
proof -
  define FT where "FT = projr (FmmTree_init 1 [\<lparr>coord = Complex (1/4) 0\<rparr>]
      [\<lparr>coord = Complex (1/4) 0\<rparr>] \<lparr>pot_p = 13\<rparr>)"
  have "evaluate [1] FT = Inr (fst (projr (evaluate [1] FT)), [0])"
    unfolding FT_def one_level_tree sum.sel Potential.simps evaluate_example by simp
  note h = this
  note T = evaluation_frame[OF h, of 0 0]
  show ?thesis
    unfolding FT_def[symmetric]
    by (intro conjI h T[THEN conjunct1]
        T[THEN conjunct2, THEN conjunct2, THEN conjunct2])
qed

section \<open>Leaf addresses are always in range\<close>

text \<open>
  Claim C10. For every level in \<open>[1,8]\<close> and all grid coordinates \<open>gx\<close>, \<open>gy\<close>
  (non-negative or not), \<open>interleave gx gy level\<close> depends only on the low \<open>level\<close>
  bits of each coordinate and is an address in \<open>[0,4^level)\<close>. In particular a point
  with a coordinate exactly \<open>1.0\<close>, whose grid coordinate is \<open>2^level\<close>, gets the
  leaf address it would get with that coordinate \<open>0\<close>; the address \<open>getBoxIndex\<close>
  returns is in range for every point, and the constructor, given no fewer targets than
  sources, builds the tree without a failure whatever the coordinates are.
\<close>

theorem interleave_low_bits_in_range:
  assumes "1 \<le> level" and "level \<le> 8"
  shows "interleave gx gy level = interleave (take_bit level gx) (take_bit level gy) level
    \<and> 0 \<le> sint (interleave gx gy level) \<and> sint (interleave gx gy level) < 4 ^ level
    \<and> getBoxIndex \<lparr>coord = Complex 1 b\<rparr> level = getBoxIndex \<lparr>coord = Complex 0 b\<rparr> level
    \<and> getBoxIndex \<lparr>coord = Complex a 1\<rparr> level = getBoxIndex \<lparr>coord = Complex a 0\<rparr> level
    \<and> 0 \<le> sint (getBoxIndex q level) \<and> sint (getBoxIndex q level) < 4 ^ level
    \<and> (length sources \<le> length targets \<longrightarrow>
         \<not> isl (FmmTree_init (int level) sources targets pot))"
proof -
  have l: "level \<le> 15" using assms by simp
  have "1 \<le> int level" "int level \<le> 8" using assms by simp_all
  from FmmTree_init_total[OF this, of sources targets pot]
  have t: "length sources \<le> length targets \<longrightarrow>
         \<not> isl (FmmTree_init (int level) sources targets pot)" by auto
  show ?thesis
    using interleave_take_bit[of gx gy level] interleave_range[OF l, of gx gy]
      getBoxIndex_unit_re[of b level] getBoxIndex_unit_im[of a level]
      getBoxIndex_range[OF l, of q] t
    by blast
qed

theorem interleave_low_bits_in_range_witness:
  "1 \<le> (3::nat) \<and> (3::nat) \<le> 8
   \<and> interleave 8 2 3 = interleave (take_bit 3 8) (take_bit 3 2) 3
   \<and> 0 \<le> sint (interleave 8 2 3) \<and> sint (interleave 8 2 3) < 4 ^ 3
   \<and> getBoxIndex \<lparr>coord = Complex 1 (1 / 4)\<rparr> 3 = getBoxIndex \<lparr>coord = Complex 0 (1 / 4)\<rparr> 3
   \<and> getBoxIndex \<lparr>coord = Complex (1 / 4) 1\<rparr> 3 = getBoxIndex \<lparr>coord = Complex (1 / 4) 0\<rparr> 3
   \<and> 0 \<le> sint (getBoxIndex \<lparr>coord = Complex 1 1\<rparr> 3)
   \<and> sint (getBoxIndex \<lparr>coord = Complex 1 1\<rparr> 3) < 4 ^ 3
   \<and> length [\<lparr>coord = Complex 1 1\<rparr>] \<le> length [\<lparr>coord = Complex 1 (1 / 4)\<rparr>]
   \<and> \<not> isl (FmmTree_init (int 3) [\<lparr>coord = Complex 1 1\<rparr>] [\<lparr>coord = Complex 1 (1 / 4)\<rparr>]
              \<lparr>pot_p = 5\<rparr>)"
proof -
  have h: "1 \<le> (3::nat)" "(3::nat) \<le> 8" by simp_all
  have l: "length [\<lparr>coord = Complex 1 1\<rparr>] \<le> length [\<lparr>coord = Complex 1 (1 / 4)\<rparr>]" by simp
  from interleave_low_bits_in_range[OF h, of 8 2 "1 / 4" "1 / 4" "\<lparr>coord = Complex 1 1\<rparr>"
      "[\<lparr>coord = Complex 1 1\<rparr>]" "[\<lparr>coord = Complex 1 (1 / 4)\<rparr>]" "\<lparr>pot_p = 5\<rparr>"] h l
  show ?thesis by blast
qed

end
